theory Spec2Isabelle
  imports Complex_Main "HOL-Library.Word"
begin

unbundle bit_operations_syntax

section \<open>JavaScript numbers\<close>

text \<open>
  The cursor codec of \<^verbatim>\<open>src/utils.js\<close> computes with JavaScript numbers, which are
  IEEE-754 doubles. Every number the codec handles is an integer or an integer divided by
  a power of 128, so the model uses \<open>int\<close> (and \<open>real\<close> for the quotient \<^verbatim>\<open>f /= 128\<close>)
  and writes out the two places where a double differs from an exact number:
  \<^item> the bitwise operators first convert their operands with ToInt32 (\<open>to_int32\<close>);
  \<^item> an addition or subtraction is rounded to the nearest double, ties to even (\<open>fl\<close>).
  Multiplications by two and by powers of 128 and divisions by 2 and 128 are exact in
  binary floating point. Magnitudes of \<open>2 ^ 1024\<close> and more (Infinity, NaN) are outside
  the model.
\<close>

definition to_int32 :: "int \<Rightarrow> int" where
  "to_int32 x = signed_take_bit 31 x"

definition js_and :: "int \<Rightarrow> int \<Rightarrow> int" where
  "js_and a b = to_int32 a AND to_int32 b"

definition js_or :: "int \<Rightarrow> int \<Rightarrow> int" where
  "js_or a b = to_int32 a OR to_int32 b"

definition js_xor :: "int \<Rightarrow> int \<Rightarrow> int" where
  "js_xor a b = to_int32 a XOR to_int32 b"

definition js_not :: "int \<Rightarrow> int" where
  "js_not a = NOT (to_int32 a)"

definition js_shl :: "int \<Rightarrow> int \<Rightarrow> int" where
  "js_shl a k = to_int32 (push_bit (nat (k mod 32)) (to_int32 a))"

definition js_sar :: "int \<Rightarrow> int \<Rightarrow> int" where
  "js_sar a k = drop_bit (nat (k mod 32)) (to_int32 a)"

function bitlen :: "int \<Rightarrow> nat" where
  "bitlen a = (if a \<le> 0 then 0 else Suc (bitlen (a div 2)))"
  by pat_completeness auto
termination
  by (relation "measure nat") auto

declare bitlen.simps [simp del]

text \<open>Rounding of an integer to the nearest double (53 significant bits, ties to even).\<close>

definition fl :: "int \<Rightarrow> int" where
  "fl x =
     (let a = \<bar>x\<bar>; e = bitlen a - 53
      in if e = 0 then x
         else let q = a div 2 ^ e; r = a mod 2 ^ e; h = 2 ^ (e - 1);
                  q' = (if h < r \<or> (r = h \<and> odd q) then q + 1 else q)
              in sgn x * (q' * 2 ^ e))"

text \<open>Truncation of a number towards zero, the first step of ToInt32.\<close>

definition trunc :: "real \<Rightarrow> int" where
  "trunc f = (if 0 \<le> f then \<lfloor>f\<rfloor> else \<lceil>f\<rceil>)"

section \<open>The cursor codec (Tap)\<close>

text \<open>
  A tap is a byte buffer (a \<^verbatim>\<open>Uint8Array\<close>) and a position. Reading an index outside
  the buffer gives \<^verbatim>\<open>undefined\<close> (\<open>None\<close>), which the bitwise operators convert to 0;
  writing there does nothing; a stored number is reduced modulo 256.
\<close>

record tap =
  buf :: "8 word list"
  pos :: int

definition load :: "8 word list \<Rightarrow> int \<Rightarrow> int option" where
  "load b i = (if 0 \<le> i \<and> i < int (length b) then Some (uint (b ! nat i)) else None)"

definition num_of :: "int option \<Rightarrow> int" where
  "num_of x = (case x of None \<Rightarrow> 0 | Some v \<Rightarrow> v)"

definition store :: "8 word list \<Rightarrow> int \<Rightarrow> int \<Rightarrow> 8 word list" where
  "store b i v = (if 0 \<le> i \<and> i < int (length b) then b[nat i := word_of_int v] else b)"

definition isValid :: "tap \<Rightarrow> bool" where
  "isValid t \<longleftrightarrow> pos t \<le> int (length (buf t))"

subsection \<open>readInt / readLong\<close>

text \<open>
  The first loop of \<^verbatim>\<open>readInt\<close>: at most four bytes with integer arithmetic. The result
  is the position, \<open>n\<close> and the continuation bit \<open>h\<close> of the last byte read.
\<close>

function read_int_loop :: "8 word list \<Rightarrow> int \<Rightarrow> int \<Rightarrow> int \<Rightarrow> int \<times> int \<times> int" where
  "read_int_loop bf p n k =
     (let b = num_of (load bf p);
          h = js_and b 128;
          n' = js_or n (js_shl (js_and b 127) k);
          k' = k + 7
      in if h \<noteq> 0 \<and> k' < 28 then read_int_loop bf (p + 1) n' k' else (p + 1, n', h))"
  by pat_completeness auto
termination
  by (relation "measure (\<lambda>(bf, p, n, k). nat (28 - k))") auto

declare read_int_loop.simps [simp del]

text \<open>
  The second loop: base-128 accumulation in floating point. It runs while the byte read
  has its high bit set, so it stops at the latest when the position leaves the buffer.
\<close>

function read_float_loop :: "8 word list \<Rightarrow> int \<Rightarrow> int \<Rightarrow> int \<Rightarrow> int \<times> int" where
  "read_float_loop bf p f fk =
     (let b = num_of (load bf p);
          f' = fl (f + js_and b 127 * fk);
          fk' = fk * 128
      in if js_and b 128 \<noteq> 0 then read_float_loop bf (p + 1) f' fk' else (p + 1, f'))"
  by pat_completeness auto
termination
proof (relation "measure (\<lambda>(bf, p, f, fk). nat (int (length bf) - p))", goal_cases)
  case 1
  show ?case by simp
next
  case (2 bf p f fk b f' fk')
  have "load bf p \<noteq> None"
  proof
    assume "load bf p = None"
    then have "js_and (num_of (load bf p)) 128 = 0"
      by (simp add: js_and_def num_of_def to_int32_def)
    with 2 show False by simp
  qed
  then have "0 \<le> p \<and> p < int (length bf)"
    by (simp add: load_def split: if_splits)
  then show ?case by simp
qed

declare read_float_loop.simps [simp del]

definition readInt :: "tap \<Rightarrow> int \<times> tap" where
  "readInt t =
     (case read_int_loop (buf t) (pos t) 0 0 of
        (p, n, h) \<Rightarrow>
          if h \<noteq> 0
          then (case read_float_loop (buf t) p n 268435456 of
                  (p', f) \<Rightarrow> ((if f mod 2 \<noteq> 0 then - fl (f + 1) else f) div 2, t\<lparr>pos := p'\<rparr>))
          else (js_xor (js_sar n 1) (- js_and n 1), t\<lparr>pos := p\<rparr>))"

abbreviation readLong :: "tap \<Rightarrow> int \<times> tap" where
  "readLong \<equiv> readInt"

subsection \<open>writeInt / writeLong\<close>

text \<open>
  \<^verbatim>\<open>buf[this.pos++] |= 0x80\<close>: the value of the expression and the buffer after it.
\<close>

definition or_store :: "8 word list \<Rightarrow> int \<Rightarrow> int \<Rightarrow> int \<times> 8 word list" where
  "or_store b i m = (let v = js_or (num_of (load b i)) m in (v, store b i v))"

text \<open>
  The integer loop of \<^verbatim>\<open>writeInt\<close>. With a negative \<open>m\<close> the arithmetic shift never
  reaches 0 and the loop does not end, so the loop is a partial function; \<open>None\<close> is
  "does not return".
\<close>

partial_function (option) write_int_loop :: "8 word list \<Rightarrow> int \<Rightarrow> int \<Rightarrow> (8 word list \<times> int) option" where
  "write_int_loop bf p m =
     (let bf1 = store bf p (js_and m 127);
          m' = js_sar m 7
      in if m' \<noteq> 0
         then (if fst (or_store bf1 p 128) \<noteq> 0
               then write_int_loop (snd (or_store bf1 p 128)) (p + 1) m'
               else Some (snd (or_store bf1 p 128), p + 1))
         else Some (bf1, p))"

declare write_int_loop.simps [code]

text \<open>The floating-point loop: \<open>f\<close> is divided by 128 until it is below 1.\<close>

function write_float_loop :: "8 word list \<Rightarrow> int \<Rightarrow> real \<Rightarrow> 8 word list \<times> int" where
  "write_float_loop bf p f =
     (let bf1 = store bf p (js_and (trunc f) 127);
          f' = f / 128
      in if 1 \<le> f'
         then (if fst (or_store bf1 p 128) \<noteq> 0
               then write_float_loop (snd (or_store bf1 p 128)) (p + 1) f'
               else (snd (or_store bf1 p 128), p + 1))
         else (bf1, p))"
  by pat_completeness auto
termination
proof (relation "measure (\<lambda>(bf, p, f). nat \<lfloor>f\<rfloor>)", goal_cases)
  case 1
  show ?case by simp
next
  case (2 bf p f bf1 f')
  then have f: "128 \<le> f" and f': "f' = f / 128" by simp_all
  have "f' + 1 \<le> f" using f f' by simp
  then have "\<lfloor>f'\<rfloor> + 1 \<le> \<lfloor>f\<rfloor>" by linarith
  moreover have "0 < \<lfloor>f\<rfloor>" using f by linarith
  ultimately show ?case by simp
qed

declare write_float_loop.simps [simp del]

definition writeInt :: "int \<Rightarrow> tap \<Rightarrow> tap option" where
  "writeInt n t =
     (if - 1073741824 \<le> n \<and> n < 1073741824
      then (let m = (if 0 \<le> n then js_shl n 1 else js_or (js_shl (js_not n) 1) 1)
            in case write_int_loop (buf t) (pos t) m of
                 None \<Rightarrow> None
               | Some (bf, p) \<Rightarrow> Some \<lparr>buf = bf, pos = p + 1\<rparr>)
      else (let f = (if 0 \<le> n then n * 2 else fl (- n * 2 - 1))
            in case write_float_loop (buf t) (pos t) (of_int f) of
                 (bf, p) \<Rightarrow> Some \<lparr>buf = bf, pos = p + 1\<rparr>))"

abbreviation writeLong :: "int \<Rightarrow> tap \<Rightarrow> tap option" where
  "writeLong \<equiv> writeInt"
section \<open>Strings and the platform's UTF-8 codec\<close>

text \<open>
  A JavaScript string is modelled by the list of its code points (integers from 0 to
  \<open>0x10FFFF\<close>), as iteration over the string yields them: a surrogate pair is one code point above \<open>0xFFFF\<close>, a lone
  surrogate is a code point between \<open>0xD800\<close> and \<open>0xDFFF\<close>. Its \<^verbatim>\<open>length\<close> counts
  UTF-16 code units.

  \<^verbatim>\<open>TextEncoder\<close> and \<^verbatim>\<open>TextDecoder\<close> belong to the platform, not to the repository. They
  are modelled from the Encoding Standard: the encoder replaces a lone surrogate by U+FFFD
  and emits UTF-8; the decoder is the standard's UTF-8 state machine (a malformed sequence
  yields U+FFFD) and, with the default options the source uses, drops a leading byte order
  mark U+FEFF. The bit operations of the standard are written with \<open>div\<close> and \<open>mod\<close>.
\<close>

type_synonym jstring = "int list"

definition is_surrogate :: "int \<Rightarrow> bool" where
  "is_surrogate c \<longleftrightarrow> 0xD800 \<le> c \<and> c \<le> 0xDFFF"

text \<open>A Unicode scalar value: a code point that is not a surrogate.\<close>

definition scalar_value :: "int \<Rightarrow> bool" where
  "scalar_value c \<longleftrightarrow> 0 \<le> c \<and> c < 0x110000 \<and> \<not> is_surrogate c"

definition utf16_units :: "int \<Rightarrow> nat" where
  "utf16_units c = (if c < 0x10000 then 1 else 2)"

definition js_length :: "jstring \<Rightarrow> nat" where
  "js_length s = sum_list (map utf16_units s)"

definition utf8_bytes :: "int \<Rightarrow> int list" where
  "utf8_bytes c =
     (if c < 0x80 then [c]
      else if c < 0x800 then [0xC0 + c div 64, 0x80 + c mod 64]
      else if c < 0x10000 then [0xE0 + c div 4096, 0x80 + c div 64 mod 64, 0x80 + c mod 64]
      else [0xF0 + c div 262144, 0x80 + c div 4096 mod 64, 0x80 + c div 64 mod 64,
            0x80 + c mod 64])"

definition text_encode :: "jstring \<Rightarrow> 8 word list" where
  "text_encode s =
     map word_of_int (concat (map (\<lambda>c. utf8_bytes (if is_surrogate c then 0xFFFD else c)) s))"

text \<open>
  The decoder's state is the code point being assembled, the continuation bytes seen and
  needed, and the bounds for the next byte. A byte outside the bounds ends the sequence
  with U+FFFD and is processed again from the initial state.
\<close>

function utf8_decode :: "int \<Rightarrow> int \<Rightarrow> int \<Rightarrow> int \<Rightarrow> int \<Rightarrow> int list \<Rightarrow> int list" where
  "utf8_decode cp seen needed lower upper [] = (if needed \<noteq> 0 then [0xFFFD] else [])"
| "utf8_decode cp seen needed lower upper (b # bs) =
     (if needed = 0
      then (if b \<le> 0x7F then b # utf8_decode cp seen needed lower upper bs
            else if 0xC2 \<le> b \<and> b \<le> 0xDF then utf8_decode (b mod 32) seen 1 lower upper bs
            else if 0xE0 \<le> b \<and> b \<le> 0xEF
            then utf8_decode (b mod 16) seen 2
                   (if b = 0xE0 then 0xA0 else lower) (if b = 0xED then 0x9F else upper) bs
            else if 0xF0 \<le> b \<and> b \<le> 0xF4
            then utf8_decode (b mod 8) seen 3
                   (if b = 0xF0 then 0x90 else lower) (if b = 0xF4 then 0x8F else upper) bs
            else 0xFFFD # utf8_decode cp seen needed lower upper bs)
      else if b < lower \<or> upper < b
      then 0xFFFD # utf8_decode 0 0 0 0x80 0xBF (b # bs)
      else (if seen + 1 \<noteq> needed
            then utf8_decode (cp * 64 + b mod 64) (seen + 1) needed 0x80 0xBF bs
            else (cp * 64 + b mod 64) # utf8_decode 0 0 0 0x80 0xBF bs))"
  by pat_completeness auto
termination
  by (relation "measures [\<lambda>(cp, seen, needed, lower, upper, bs). length bs,
                         \<lambda>(cp, seen, needed, lower, upper, bs). if needed = 0 then 0 else 1]") auto

definition text_decode :: "8 word list \<Rightarrow> jstring" where
  "text_decode bs =
     (case utf8_decode 0 0 0 0x80 0xBF (map uint bs) of
        [] \<Rightarrow> []
      | c # cs \<Rightarrow> if c = 0xFEFF then cs else c # cs)"

subsection \<open>readString and writeString\<close>

text \<open>
  \<^verbatim>\<open>Uint8Array.prototype.slice(start, end)\<close>: a negative index counts from the end, and
  both indices are clamped to the array.
\<close>

definition js_slice :: "'a list \<Rightarrow> int \<Rightarrow> int \<Rightarrow> 'a list" where
  "js_slice xs start fin =
     (let n = int (length xs);
          k = (if start < 0 then max (n + start) 0 else min start n);
          e = (if fin < 0 then max (n + fin) 0 else min fin n)
      in take (nat (e - k)) (drop (nat k) xs))"

text \<open>\<^verbatim>\<open>readString\<close> returns \<^verbatim>\<open>undefined\<close> (\<open>None\<close>) when the length read leads past the buffer.\<close>

definition readString :: "tap \<Rightarrow> jstring option \<times> tap" where
  "readString t =
     (case readLong t of
        (len, t1) \<Rightarrow>
          let p = pos t1; t2 = t1\<lparr>pos := p + len\<rparr>
          in if int (length (buf t2)) < pos t2 then (None, t2)
             else (Some (text_decode (js_slice (buf t2) p (p + len))), t2))"

datatype error =
    TypeError string
  | RangeError string
  | TruncatedBuffer
  | TrailingData
  | InvalidResolver
  | NullType
  | UndefinedTypeName string
  | UnknownType
  | DuplicateTypeName string
  | MissingArrayItems
  | NonArrayFields
  | DuplicateFieldName
  | InvalidFieldName
  | InvalidOrder
  | MissingName
  | CannotRenamePrimitive string
  | InvalidName string

text \<open>
  \<^verbatim>\<open>this.buf.set(buf, pos)\<close> raises a RangeError when the source does not fit at the
  offset; after the check of \<^verbatim>\<open>writeString\<close> that is the case of a negative offset only.
\<close>

definition set_bytes :: "8 word list \<Rightarrow> 8 word list \<Rightarrow> int \<Rightarrow> error + 8 word list" where
  "set_bytes b src off =
     (if off < 0 \<or> int (length b) < off + int (length src)
      then Inl (RangeError ''offset is out of bounds'')
      else Inr (take (nat off) b @ src @ drop (nat off + length src) b))"

definition writeString :: "jstring \<Rightarrow> tap \<Rightarrow> (error + tap) option" where
  "writeString s t =
     (let bytes = text_encode s; len = int (length bytes)
      in case writeLong len t of
           None \<Rightarrow> None
         | Some t1 \<Rightarrow>
             let p = pos t1; t2 = t1\<lparr>pos := p + len\<rparr>
             in if int (length (buf t2)) < pos t2 then Some (Inr t2)
                else (case set_bytes (buf t2) bytes p of
                        Inl e \<Rightarrow> Some (Inl e)
                      | Inr b \<Rightarrow> Some (Inr (t2\<lparr>buf := b\<rparr>))))"

section \<open>Values, types and the type contract\<close>

text \<open>
  The compiled types of \<^verbatim>\<open>src/schemas.js\<close>: \<^verbatim>\<open>StringType\<close>, \<^verbatim>\<open>ArrayType\<close> with its item
  type, and \<^verbatim>\<open>RecordType\<close> with its qualified name, aliases, the \<^verbatim>\<open>type\<close> attribute and
  its fields. A \<^verbatim>\<open>Field\<close> has a name, a type, the \<^verbatim>\<open>aliases\<close> attribute as it was given
  (hence the parameter \<open>'j\<close>, instantiated with schema values below) and an order; its
  constructor is written \<open>Field'\<close>, since \<open>Field\<close> is the field of a relation in HOL.
  The routines that \<^verbatim>\<open>RecordType\<close> generates with \<^verbatim>\<open>new Function\<close> are modelled by
  functions that interpret the field list.
\<close>

datatype 'j avro_type =
    StringType
  | ArrayType (items: "'j avro_type")
  | RecordType (rname: string) (raliases: "string list") (rtype: 'j) (rfields: "'j field list")
and 'j field =
    Field' (fname: string) (ftype: "'j avro_type") (faliases: 'j) (forder: int)

text \<open>
  JavaScript values as far as the program looks at them. An object is the list of its own
  properties; property names that values inherit from their prototypes (\<^verbatim>\<open>length\<close>,
  \<^verbatim>\<open>constructor\<close>, ...) are not modelled.
\<close>

datatype val =
    VUndefined
  | VNull
  | VBool bool
  | VNum int
  | VStr jstring
  | VArr "val list"
  | VObj "(string \<times> val) list"

text \<open>\<^verbatim>\<open>val.name\<close>: a TypeError on \<^verbatim>\<open>undefined\<close> and \<^verbatim>\<open>null\<close>, \<^verbatim>\<open>undefined\<close> for a missing property.\<close>

definition get_prop :: "val \<Rightarrow> string \<Rightarrow> error + val" where
  "get_prop v k =
     (case v of
        VUndefined \<Rightarrow> Inl (TypeError ''Cannot read properties of undefined'')
      | VNull \<Rightarrow> Inl (TypeError ''Cannot read properties of null'')
      | VObj kvs \<Rightarrow> Inr (case map_of kvs k of None \<Rightarrow> VUndefined | Some x \<Rightarrow> x)
      | _ \<Rightarrow> Inr VUndefined)"

text \<open>\<^verbatim>\<open>typeof val == 'object'\<close> holds of objects, arrays and \<^verbatim>\<open>null\<close>.\<close>

definition typeof_object :: "val \<Rightarrow> bool" where
  "typeof_object v = (case v of VNull \<Rightarrow> True | VArr xs \<Rightarrow> True | VObj kvs \<Rightarrow> True | _ \<Rightarrow> False)"

text \<open>
  \<^verbatim>\<open>Field.prototype.getDefault\<close> is the empty method \<^verbatim>\<open>getDefault() {}\<close>, and the
  constructor of \<^verbatim>\<open>Field\<close> never replaces it: it returns \<^verbatim>\<open>undefined\<close> for every field.
\<close>

definition getDefault :: "'j field \<Rightarrow> val" where
  "getDefault f = VUndefined"

subsection \<open>Decimal rendering of an index\<close>

definition digit_char :: "nat \<Rightarrow> char" where
  "digit_char d = (''0123456789'' ! d)"

function show_nat :: "nat \<Rightarrow> string" where
  "show_nat n = (if n < 10 then [digit_char n] else show_nat (n div 10) @ [digit_char (n mod 10)])"
  by pat_completeness auto
termination
  by (relation "measure id") auto

declare show_nat.simps [simp del]

subsection \<open>check and isValid\<close>

text \<open>
  The state of validation: the shared path stack \<^verbatim>\<open>PATH\<close>, and the calls of the error
  hook so far, each with the path (a copy, \<^verbatim>\<open>PATH.slice()\<close>), the value and the type. The
  argument \<open>cb\<close> says whether a hook was supplied.
\<close>

record 'j chk_state =
  PATH :: "string list"
  calls :: "(string list \<times> val \<times> 'j avro_type) list"

definition call_hook :: "bool \<Rightarrow> val \<Rightarrow> 'j avro_type \<Rightarrow> 'j chk_state \<Rightarrow> 'j chk_state" where
  "call_hook cb v ty st = (if cb then st\<lparr>calls := calls st @ [(PATH st, v, ty)]\<rparr> else st)"

text \<open>
  \<^verbatim>\<open>ArrayType._check\<close> declares \<^verbatim>\<open>const b = true\<close> and, on the path with a hook, executes
  \<^verbatim>\<open>b = false\<close> for an invalid item: an assignment to a constant, which raises a TypeError.
  The checker that \<^verbatim>\<open>RecordType._createChecker\<close> generates declares \<^verbatim>\<open>const b = 1\<close> and,
  on the path with a hook, executes \<^verbatim>\<open>b &= ...\<close> for the first field: the right-hand
  side is evaluated, then the assignment raises a TypeError. \<^verbatim>\<open>PATH[j] = ...\<close> writes
  below the length of \<^verbatim>\<open>PATH\<close>, since the push precedes it and a nested check that returns
  restores the length.
\<close>

function (sequential) check :: "'j avro_type \<Rightarrow> val \<Rightarrow> bool \<Rightarrow> 'j chk_state \<Rightarrow> (error + bool) \<times> 'j chk_state"
  and check_items_hook ::
    "'j avro_type \<Rightarrow> val list \<Rightarrow> nat \<Rightarrow> nat \<Rightarrow> 'j chk_state \<Rightarrow> (error + bool) \<times> 'j chk_state"
  and check_items :: "'j avro_type \<Rightarrow> val list \<Rightarrow> 'j chk_state \<Rightarrow> (error + bool) \<times> 'j chk_state"
  and check_first_field_hook ::
    "'j field list \<Rightarrow> val \<Rightarrow> nat \<Rightarrow> 'j chk_state \<Rightarrow> (error + bool) \<times> 'j chk_state"
  and check_fields :: "'j field list \<Rightarrow> val \<Rightarrow> 'j chk_state \<Rightarrow> (error + bool) \<times> 'j chk_state"
where
  "check StringType v cb st =
     (let b = (case v of VStr s \<Rightarrow> True | _ \<Rightarrow> False)
      in (Inr b, if \<not> b then call_hook cb v StringType st else st))"
| "check (ArrayType it) v cb st =
     (case v of
        VArr xs \<Rightarrow>
          if cb
          then (let j = length (PATH st)
                in case check_items_hook it xs 0 j (st\<lparr>PATH := PATH st @ [[]]\<rparr>) of
                     (Inl e, st') \<Rightarrow> (Inl e, st')
                   | (Inr b, st') \<Rightarrow> (Inr b, st'\<lparr>PATH := butlast (PATH st')\<rparr>))
          else check_items it xs st
      | _ \<Rightarrow> (Inr False, call_hook cb v (ArrayType it) st))"
| "check (RecordType n als ty fs) v cb st =
     (if v = VNull \<or> \<not> typeof_object v
      then (Inr False, call_hook cb v (RecordType n als ty fs) st)
      else if fs = [] then (Inr True, st)
      else if cb
      then check_first_field_hook fs v (length (PATH st)) (st\<lparr>PATH := PATH st @ [[]]\<rparr>)
      else check_fields fs v st)"
| "check_items_hook it [] i j st = (Inr True, st)"
| "check_items_hook it (x # xs) i j st =
     (case check it x True (st\<lparr>PATH := (PATH st)[j := show_nat i]\<rparr>) of
        (Inl e, st') \<Rightarrow> (Inl e, st')
      | (Inr ok, st') \<Rightarrow>
          if \<not> ok then (Inl (TypeError ''Assignment to constant variable.''), st')
          else check_items_hook it xs (i + 1) j st')"
| "check_items it [] st = (Inr True, st)"
| "check_items it (x # xs) st =
     (case check it x False st of
        (Inl e, st') \<Rightarrow> (Inl e, st')
      | (Inr ok, st') \<Rightarrow> if \<not> ok then (Inr False, st') else check_items it xs st')"
| "check_first_field_hook [] v j st = (Inr True, st)"
| "check_first_field_hook (f # fs) v j st =
     (let st1 = st\<lparr>PATH := (PATH st)[j := fname f]\<rparr>;
          x = (case get_prop v (fname f) of Inl e \<Rightarrow> VUndefined | Inr y \<Rightarrow> y)
      in case (if getDefault f \<noteq> VUndefined \<and> x = VUndefined then (Inr True, st1)
               else check (ftype f) x True st1) of
           (Inl e, st') \<Rightarrow> (Inl e, st')
         | (Inr ok, st') \<Rightarrow> (Inl (TypeError ''Assignment to constant variable.''), st'))"
| "check_fields [] v st = (Inr True, st)"
| "check_fields (f # fs) v st =
     (let x = (case get_prop v (fname f) of Inl e \<Rightarrow> VUndefined | Inr y \<Rightarrow> y)
      in case (if getDefault f \<noteq> VUndefined \<and> x = VUndefined then (Inr True, st)
               else check (ftype f) x False st) of
           (Inl e, st') \<Rightarrow> (Inl e, st')
         | (Inr ok, st') \<Rightarrow> if \<not> ok then (Inr False, st') else check_fields fs v st')"
  by pat_completeness auto
termination
proof -
  have sz: "size (ftype f) \<le> size f" for f :: "'j field"
    by (cases f) simp
  show ?thesis
  by (relation "measures
       [\<lambda>x. case x of
              Inl (Inl (ty, v, cb, st)) \<Rightarrow> size ty
            | Inl (Inr (it, xs, i, j, st)) \<Rightarrow> size it
            | Inr (Inl (it, xs, st)) \<Rightarrow> size it
            | Inr (Inr (Inl (fs, v, j, st))) \<Rightarrow> size_list size fs
            | Inr (Inr (Inr (fs, v, st))) \<Rightarrow> size_list size fs,
        \<lambda>x. case x of
              Inl (Inl (ty, v, cb, st)) \<Rightarrow> 0
            | Inl (Inr (it, xs, i, j, st)) \<Rightarrow> Suc (length xs)
            | Inr (Inl (it, xs, st)) \<Rightarrow> Suc (length xs)
            | Inr (Inr (Inl (fs, v, j, st))) \<Rightarrow> 0
            | Inr (Inr (Inr (fs, v, st))) \<Rightarrow> 0]")
    (auto simp: less_Suc_eq_le intro!: trans_le_add1 sz)
qed


text \<open>\<^verbatim>\<open>Type.isValid(val, opts)\<close>: empties \<^verbatim>\<open>PATH\<close>, then checks with the hook of the options.\<close>

definition Type_isValid :: "'j avro_type \<Rightarrow> val \<Rightarrow> bool \<Rightarrow> 'j chk_state \<Rightarrow> (error + bool) \<times> 'j chk_state" where
  "Type_isValid ty v cb st = check ty v cb (st\<lparr>PATH := []\<rparr>)"

subsection \<open>The record constructor\<close>

text \<open>
  The constructor that \<^verbatim>\<open>_createConstructor\<close> generates assigns its arguments to the fields
  by position; a missing argument is \<^verbatim>\<open>undefined\<close>. For a field whose \<^verbatim>\<open>getDefault()\<close> is
  not \<^verbatim>\<open>undefined\<close>, an \<^verbatim>\<open>undefined\<close> argument is replaced by a call of \<^verbatim>\<open>getDefault\<close>.
\<close>

definition createConstructor :: "'j field list \<Rightarrow> val list \<Rightarrow> val" where
  "createConstructor fs args =
     VObj (map (\<lambda>(i, f).
             let v = (if i < length args then args ! i else VUndefined)
             in (fname f,
                 if getDefault f = VUndefined then v
                 else if v = VUndefined then getDefault f else v))
           (enumerate 0 fs))"

subsection \<open>read\<close>

text \<open>
  \<^verbatim>\<open>ArrayType._read\<close> loops as long as the block count read is not zero, and a string
  with a negative length moves the position backwards, so decoding need not end: the
  readers take fuel, one unit for every call and every iteration, and \<open>None\<close> is "no
  result within the fuel". For a negative block count the source calls
  \<^verbatim>\<open>tap.skipLong()\<close>, which \<^verbatim>\<open>Tap\<close> does not define: a TypeError.
\<close>

function (sequential) read :: "nat \<Rightarrow> 'j avro_type \<Rightarrow> tap \<Rightarrow> (error + val \<times> tap) option"
  and read_blocks :: "nat \<Rightarrow> 'j avro_type \<Rightarrow> tap \<Rightarrow> val list \<Rightarrow> (error + val \<times> tap) option"
  and read_items ::
    "nat \<Rightarrow> 'j avro_type \<Rightarrow> tap \<Rightarrow> nat \<Rightarrow> val list \<Rightarrow> (error + val list \<times> tap) option"
  and read_fields ::
    "nat \<Rightarrow> 'j field list \<Rightarrow> tap \<Rightarrow> val list \<Rightarrow> (error + val list \<times> tap) option"
where
  "read 0 ty t = None"
| "read (Suc k) StringType t =
     (case readString t of
        (r, t') \<Rightarrow> Some (Inr (case r of None \<Rightarrow> VUndefined | Some s \<Rightarrow> VStr s, t')))"
| "read (Suc k) (ArrayType it) t = read_blocks k it t []"
| "read (Suc k) (RecordType n als ty fs) t =
     (case read_fields k fs t [] of
        None \<Rightarrow> None
      | Some (Inl e) \<Rightarrow> Some (Inl e)
      | Some (Inr (args, t')) \<Rightarrow> Some (Inr (createConstructor fs args, t')))"
| "read_blocks 0 it t acc = None"
| "read_blocks (Suc k) it t acc =
     (case readLong t of
        (n, t1) \<Rightarrow>
          if n \<noteq> 0
          then (if n < 0 then Some (Inl (TypeError ''tap.skipLong is not a function''))
                else (case read_items k it t1 (nat n) acc of
                        None \<Rightarrow> None
                      | Some (Inl e) \<Rightarrow> Some (Inl e)
                      | Some (Inr (acc', t2)) \<Rightarrow> read_blocks k it t2 acc'))
          else Some (Inr (VArr acc, t1)))"
| "read_items 0 it t n acc = None"
| "read_items (Suc k) it t 0 acc = Some (Inr (acc, t))"
| "read_items (Suc k) it t (Suc n) acc =
     (case read k it t of
        None \<Rightarrow> None
      | Some (Inl e) \<Rightarrow> Some (Inl e)
      | Some (Inr (v, t')) \<Rightarrow> read_items k it t' n (acc @ [v]))"
| "read_fields 0 fs t acc = None"
| "read_fields (Suc k) [] t acc = Some (Inr (acc, t))"
| "read_fields (Suc k) (f # fs) t acc =
     (case read k (ftype f) t of
        None \<Rightarrow> None
      | Some (Inl e) \<Rightarrow> Some (Inl e)
      | Some (Inr (v, t')) \<Rightarrow> read_fields k fs t' (acc @ [v]))"
  by pat_completeness auto
termination
  by (relation "measure (\<lambda>x. case x of
         Inl (Inl (k, ty, t)) \<Rightarrow> k
       | Inl (Inr (k, it, t, acc)) \<Rightarrow> k
       | Inr (Inl (k, it, t, n, acc)) \<Rightarrow> k
       | Inr (Inr (k, fs, t, acc)) \<Rightarrow> k)") auto




subsection \<open>write and toBuffer\<close>

text \<open>
  \<^verbatim>\<open>throwInvalidError\<close> builds its message with \<^verbatim>\<open>`invalid ${type}: ${val}`\<close>. Converting
  the type to a string calls \<^verbatim>\<open>Type.prototype.toString\<close> without an argument, which calls
  \<^verbatim>\<open>this.getSchema\<close>; no class defines \<^verbatim>\<open>getSchema\<close>, so what is raised is a TypeError, for
  every type and value.
\<close>

definition throwInvalidError :: error where
  "throwInvalidError = TypeError ''this.getSchema is not a function''"

text \<open>
  The writer generated for a record writes \<^verbatim>\<open>val.name\<close> for every field in declared order.
  The branch for a field with a default calls \<^verbatim>\<open>tap.writeBinary\<close>, which \<^verbatim>\<open>Tap\<close> does not
  define.
\<close>

function (sequential) write_value :: "'j avro_type \<Rightarrow> val \<Rightarrow> tap \<Rightarrow> (error + tap) option"
  and write_items :: "'j avro_type \<Rightarrow> val list \<Rightarrow> tap \<Rightarrow> (error + tap) option"
  and write_fields :: "'j field list \<Rightarrow> val \<Rightarrow> tap \<Rightarrow> (error + tap) option"
where
  "write_value StringType v t = (case v of VStr s \<Rightarrow> writeString s t | _ \<Rightarrow> Some (Inl throwInvalidError))"
| "write_value (ArrayType it) v t =
     (case v of
        VArr xs \<Rightarrow>
          if length xs \<noteq> 0
          then (case writeLong (int (length xs)) t of
                  None \<Rightarrow> None
                | Some t1 \<Rightarrow>
                    (case write_items it xs t1 of
                       None \<Rightarrow> None
                     | Some (Inl e) \<Rightarrow> Some (Inl e)
                     | Some (Inr t2) \<Rightarrow> map_option Inr (writeLong 0 t2)))
          else map_option Inr (writeLong 0 t)
      | _ \<Rightarrow> Some (Inl throwInvalidError))"
| "write_value (RecordType n als ty fs) v t = write_fields fs v t"
| "write_items it [] t = Some (Inr t)"
| "write_items it (x # xs) t =
     (case write_value it x t of
        None \<Rightarrow> None
      | Some (Inl e) \<Rightarrow> Some (Inl e)
      | Some (Inr t') \<Rightarrow> write_items it xs t')"
| "write_fields [] v t = Some (Inr t)"
| "write_fields (f # fs) v t =
     (case get_prop v (fname f) of
        Inl e \<Rightarrow> Some (Inl e)
      | Inr x \<Rightarrow>
          if getDefault f \<noteq> VUndefined \<and> x = VUndefined
          then Some (Inl (TypeError ''tap.writeBinary is not a function''))
          else (case write_value (ftype f) x t of
                  None \<Rightarrow> None
                | Some (Inl e) \<Rightarrow> Some (Inl e)
                | Some (Inr t') \<Rightarrow> write_fields fs v t'))"
  by pat_completeness auto
termination
proof -
  have sz: "size (ftype f) \<le> size f" for f :: "'j field"
    by (cases f) simp
  show ?thesis
  by (relation "measures
       [\<lambda>x. case x of
              Inl (ty, v, t) \<Rightarrow> size ty
            | Inr (Inl (it, xs, t)) \<Rightarrow> size it
            | Inr (Inr (fs, v, t)) \<Rightarrow> size_list size fs,
        \<lambda>x. case x of
              Inl (ty, v, t) \<Rightarrow> 0
            | Inr (Inl (it, xs, t)) \<Rightarrow> Suc (length xs)
            | Inr (Inr (fs, v, t)) \<Rightarrow> 0]")
    (auto simp: less_Suc_eq_le intro!: trans_le_add1 sz)
qed

text \<open>
  The scratch tap shared by all \<^verbatim>\<open>toBuffer\<close> calls, \<^verbatim>\<open>new Tap(new Uint8Array(1024))\<close>.
\<close>

definition TAP :: tap where
  "TAP = \<lparr>buf = replicate 1024 0, pos = 0\<rparr>"

text \<open>
  \<^verbatim>\<open>toBuffer\<close> takes the state of the scratch tap and returns the bytes and the new state.
  When the write has left the tap invalid, the source calls \<^verbatim>\<open>Type._reset(2 * TAP.pos)\<close>;
  neither the class \<^verbatim>\<open>Type\<close> nor any other code of the repository defines \<^verbatim>\<open>_reset\<close>, so
  the call raises a TypeError.
\<close>

definition toBuffer :: "'j avro_type \<Rightarrow> val \<Rightarrow> tap \<Rightarrow> (error + 8 word list \<times> tap) option" where
  "toBuffer ty v tp =
     (case write_value ty v (tp\<lparr>pos := 0\<rparr>) of
        None \<Rightarrow> None
      | Some (Inl e) \<Rightarrow> Some (Inl e)
      | Some (Inr t1) \<Rightarrow>
          if \<not> isValid t1 then Some (Inl (TypeError ''Type._reset is not a function''))
          else Some (Inr (js_slice (buf t1) 0 (pos t1), t1)))"

section \<open>Schema parsing\<close>

text \<open>
  The input of \<^verbatim>\<open>createType\<close>: a JavaScript value as a schema can contain it, or a compiled
  type (\<open>JType\<close>). An object is the list of its own properties. Names that objects inherit
  from \<^verbatim>\<open>Object.prototype\<close> (\<^verbatim>\<open>constructor\<close>, \<^verbatim>\<open>toString\<close>, ...) are outside the
  model where they are looked up in the registry or in \<^verbatim>\<open>TYPES\<close>, and so are record names
  that are reserved words. Numbers in a schema are integers, and an object has each
  property name once.
\<close>

datatype json =
    JUndefined
  | JNull
  | JBool bool
  | JNum int
  | JStr string
  | JArr "json list"
  | JObj "(string \<times> json) list"
  | JType "json avro_type"

type_synonym atype = "json avro_type"

definition truthy :: "json \<Rightarrow> bool" where
  "truthy j =
     (case j of
        JUndefined \<Rightarrow> False
      | JNull \<Rightarrow> False
      | JBool b \<Rightarrow> b
      | JNum n \<Rightarrow> n \<noteq> 0
      | JStr s \<Rightarrow> s \<noteq> []
      | _ \<Rightarrow> True)"

text \<open>\<^verbatim>\<open>attrs.key\<close>: a TypeError on \<^verbatim>\<open>undefined\<close> and \<^verbatim>\<open>null\<close>, \<^verbatim>\<open>undefined\<close> for a missing property.\<close>

definition get_attr :: "json \<Rightarrow> string \<Rightarrow> error + json" where
  "get_attr a k =
     (case a of
        JUndefined \<Rightarrow> Inl (TypeError ''Cannot read properties of undefined'')
      | JNull \<Rightarrow> Inl (TypeError ''Cannot read properties of null'')
      | JObj kvs \<Rightarrow> Inr (case map_of kvs k of None \<Rightarrow> JUndefined | Some x \<Rightarrow> x)
      | _ \<Rightarrow> Inr JUndefined)"

text \<open>Conversion to a string, as string concatenation and property keys apply it.\<close>

definition show_int :: "int \<Rightarrow> string" where
  "show_int n = (if n < 0 then CHR ''-'' # show_nat (nat (- n)) else show_nat (nat n))"

fun join_comma :: "string list \<Rightarrow> string" where
  "join_comma [] = []"
| "join_comma [x] = x"
| "join_comma (x # y # ys) = x @ CHR '','' # join_comma (y # ys)"

text \<open>
  An array joins its elements with commas, \<^verbatim>\<open>undefined\<close> and \<^verbatim>\<open>null\<close> as empty strings. An
  object is \<^verbatim>\<open>[object Object]\<close>, unless it has a property \<^verbatim>\<open>toString\<close> of its own (which in
  a schema is not a function): then it cannot be converted. A compiled type inherits
  \<^verbatim>\<open>Type.prototype.toString\<close>, which without an argument calls the undefined
  \<^verbatim>\<open>this.getSchema\<close>.
\<close>

fun to_str :: "json \<Rightarrow> error + string"
  and to_str_elems :: "json list \<Rightarrow> error + string list"
where
  "to_str JUndefined = Inr ''undefined''"
| "to_str JNull = Inr ''null''"
| "to_str (JBool b) = Inr (if b then ''true'' else ''false'')"
| "to_str (JNum n) = Inr (show_int n)"
| "to_str (JStr s) = Inr s"
| "to_str (JArr xs) = (case to_str_elems xs of Inl e \<Rightarrow> Inl e | Inr ss \<Rightarrow> Inr (join_comma ss))"
| "to_str (JObj kvs) =
     (if map_of kvs ''toString'' \<noteq> None
      then Inl (TypeError ''Cannot convert object to primitive value'')
      else Inr ''[object Object]'')"
| "to_str (JType t) = Inl (TypeError ''this.getSchema is not a function'')"
| "to_str_elems [] = Inr []"
| "to_str_elems (x # xs) =
     (case (if x = JUndefined \<or> x = JNull then Inr [] else to_str x) of
        Inl e \<Rightarrow> Inl e
      | Inr s \<Rightarrow> (case to_str_elems xs of Inl e \<Rightarrow> Inl e | Inr ss \<Rightarrow> Inr (s # ss)))"

text \<open>
  An error whose message interpolates a value: the conversion of the value to a string may
  raise first.
\<close>

definition raise_with :: "json \<Rightarrow> error \<Rightarrow> error" where
  "raise_with j err = (case to_str j of Inl e \<Rightarrow> e | Inr s \<Rightarrow> err)"

subsection \<open>Names\<close>

text \<open>\<^verbatim>\<open>NAME_PATTERN = /^[A-Za-z_][A-Za-z0-9_]*$/\<close>.\<close>

definition name_start :: "char \<Rightarrow> bool" where
  "name_start c \<longleftrightarrow> c \<in> set ''ABCDEFGHIJKLMNOPQRSTUVWXYZabcdefghijklmnopqrstuvwxyz_''"

definition name_char :: "char \<Rightarrow> bool" where
  "name_char c \<longleftrightarrow> name_start c \<or> c \<in> set ''0123456789''"

definition NAME_PATTERN :: "string \<Rightarrow> bool" where
  "NAME_PATTERN s = (case s of [] \<Rightarrow> False | c # cs \<Rightarrow> name_start c \<and> list_all name_char cs)"

text \<open>\<^verbatim>\<open>name.split('.')\<close>.\<close>

fun split_dot :: "string \<Rightarrow> string list" where
  "split_dot [] = [[]]"
| "split_dot (c # cs) =
     (if c = CHR ''.'' then [] # split_dot cs
      else (case split_dot cs of [] \<Rightarrow> [[c]] | p # ps \<Rightarrow> (c # p) # ps))"

definition unqualify :: "string \<Rightarrow> string" where
  "unqualify name = last (split_dot name)"

text \<open>
  \<^verbatim>\<open>TYPES\<close> has the keys \<^verbatim>\<open>array\<close>, \<^verbatim>\<open>record\<close> and \<^verbatim>\<open>string\<close>; only \<^verbatim>\<open>StringType\<close> extends
  \<^verbatim>\<open>PrimitiveType\<close>.
\<close>

definition isPrimitive :: "string \<Rightarrow> bool" where
  "isPrimitive name \<longleftrightarrow> name = ''string''"

text \<open>
  \<^verbatim>\<open>qualify\<close>, the local function of \<^verbatim>\<open>resolveNames\<close>, for the namespace in force;
  \<open>check_name\<close> is its part after the namespace has been prefixed. A name that is not a
  string has no \<^verbatim>\<open>indexOf\<close> or no \<^verbatim>\<open>split\<close>, except that an array without the element
  \<^verbatim>\<open>'.'\<close> is concatenated to the namespace first.
\<close>

definition check_name :: "string \<Rightarrow> error + string" where
  "check_name name1 =
     (let tail = unqualify name1
      in if isPrimitive tail then Inl (CannotRenamePrimitive tail)
         else if \<not> list_all NAME_PATTERN (split_dot name1) then Inl (InvalidName name1)
         else Inr name1)"

definition qualify :: "json \<Rightarrow> json \<Rightarrow> error + string" where
  "qualify ns name =
     (case name of
        JStr s \<Rightarrow>
          if CHR ''.'' \<notin> set s \<and> truthy ns
          then (case to_str ns of Inl e \<Rightarrow> Inl e | Inr n \<Rightarrow> check_name (n @ CHR ''.'' # s))
          else check_name s
      | JArr xs \<Rightarrow>
          if JStr ''.'' \<notin> set xs \<and> truthy ns
          then (case to_str ns of
                  Inl e \<Rightarrow> Inl e
                | Inr n \<Rightarrow>
                    (case to_str name of
                       Inl e \<Rightarrow> Inl e
                     | Inr s \<Rightarrow> check_name (n @ CHR ''.'' # s)))
          else Inl (TypeError ''name.split is not a function'')
      | JUndefined \<Rightarrow> Inl (TypeError ''Cannot read properties of undefined'')
      | JNull \<Rightarrow> Inl (TypeError ''Cannot read properties of null'')
      | _ \<Rightarrow> Inl (TypeError ''name.indexOf is not a function''))"

fun qualify_all :: "json \<Rightarrow> json list \<Rightarrow> error + string list" where
  "qualify_all ns [] = Inr []"
| "qualify_all ns (x # xs) =
     (case qualify ns x of
        Inl e \<Rightarrow> Inl e
      | Inr n \<Rightarrow> (case qualify_all ns xs of Inl e \<Rightarrow> Inl e | Inr ns' \<Rightarrow> Inr (n # ns')))"

definition resolveNames :: "json \<Rightarrow> json \<Rightarrow> error + string \<times> string list" where
  "resolveNames attrs namespace0 =
     (case get_attr attrs ''namespace'' of
        Inl e \<Rightarrow> Inl e
      | Inr ans \<Rightarrow>
          let ns = (if truthy ans then ans else namespace0)
          in case get_attr attrs ''name'' of
               Inl e \<Rightarrow> Inl e
             | Inr name \<Rightarrow>
                 if \<not> truthy name then Inl (raise_with attrs MissingName)
                 else (case qualify ns name of
                         Inl e \<Rightarrow> Inl e
                       | Inr qn \<Rightarrow>
                           (case get_attr attrs ''aliases'' of
                              Inl e \<Rightarrow> Inl e
                            | Inr al \<Rightarrow>
                                if \<not> truthy al then Inr (qn, [])
                                else (case al of
                                        JArr xs \<Rightarrow>
                                          (case qualify_all ns xs of
                                             Inl e \<Rightarrow> Inl e
                                           | Inr qs \<Rightarrow> Inr (qn, qs))
                                      | _ \<Rightarrow> Inl (TypeError ''attrs.aliases.map is not a function'')))))"

subsection \<open>Options\<close>

text \<open>
  The options object is shared by reference by all the calls of one parse, and \<^verbatim>\<open>getOpts\<close>
  assigns to it: the model passes it along as state. An options argument that is absent is
  the object without properties, \<open>no_opts\<close>; the registry is the list of its entries.
\<close>

record opts =
  registry :: "(string \<times> atype) list"
  namespace :: json
  logicalTypes :: json

definition no_opts :: opts where
  "no_opts = \<lparr>registry = [], namespace = JUndefined, logicalTypes = JUndefined\<rparr>"

definition getOpts :: "json \<Rightarrow> opts \<Rightarrow> error + opts" where
  "getOpts attrs os =
     (if attrs = JNull then Inl NullType
      else (case get_attr attrs ''namespace'' of
              Inl e \<Rightarrow> Inl e
            | Inr ns \<Rightarrow>
                Inr (os\<lparr>namespace := (if truthy ns then ns else namespace os),
                        logicalTypes :=
                          (if truthy (logicalTypes os) then logicalTypes os else JObj [])\<rparr>)))"

subsection \<open>hasDuplicates\<close>

text \<open>
  \<^verbatim>\<open>hasDuplicates\<close> records the names seen as properties of a plain object, so a name that
  \<^verbatim>\<open>Object.prototype\<close> defines counts as seen from the start.
\<close>

definition object_prototype_names :: "string list" where
  "object_prototype_names =
     [''constructor'', ''hasOwnProperty'', ''isPrototypeOf'', ''propertyIsEnumerable'',
      ''toLocaleString'', ''toString'', ''valueOf'', ''__proto__'', ''__defineGetter__'',
      ''__defineSetter__'', ''__lookupGetter__'', ''__lookupSetter__'']"

fun hasDuplicates_from :: "string list \<Rightarrow> string list \<Rightarrow> bool" where
  "hasDuplicates_from seen [] = False"
| "hasDuplicates_from seen (x # xs) =
     (if x \<in> set seen \<or> x \<in> set object_prototype_names then True
      else hasDuplicates_from (x # seen) xs)"

definition hasDuplicates :: "string list \<Rightarrow> bool" where
  "hasDuplicates names = hasDuplicates_from [] names"

subsection \<open>createType and the constructors\<close>

text \<open>
  \<^verbatim>\<open>ArrayType\<close> and \<^verbatim>\<open>RecordType\<close> call \<^verbatim>\<open>super()\<close> without arguments as their first
  statement, so the constructor of \<^verbatim>\<open>Type\<close> finds \<^verbatim>\<open>registry === undefined\<close> and returns
  before it registers anything; \<^verbatim>\<open>StringType\<close> has no name. The only assignment to the
  registry is that of a primitive in \<^verbatim>\<open>createType\<close>, where the nested call
  \<^verbatim>\<open>createType({ type: attrs }, opts)\<close> leaves the options as they are and builds
  \<^verbatim>\<open>TYPES[attrs]\<close>, the string type.
\<close>

definition order_of :: "json \<Rightarrow> error + int" where
  "order_of ord =
     (let x = (if ord = JUndefined then JStr ''ascending'' else ord)
      in if x = JStr ''ascending'' then Inr 1
         else if x = JStr ''descending'' then Inr (- 1)
         else if x = JStr ''ignore'' then Inr 0
         else Inl (raise_with x InvalidOrder))"

function (sequential) createType :: "json \<Rightarrow> opts \<Rightarrow> error + atype \<times> opts"
  and new_ArrayType :: "json \<Rightarrow> opts \<Rightarrow> error + atype \<times> opts"
  and new_RecordType :: "json \<Rightarrow> opts \<Rightarrow> error + atype \<times> opts"
  and new_Fields :: "json list \<Rightarrow> opts \<Rightarrow> error + json field list \<times> opts"
  and new_Field :: "json \<Rightarrow> opts \<Rightarrow> error + json field \<times> opts"
where
  "createType attrs os =
     (case attrs of
        JType t \<Rightarrow> Inr (t, os)
      | _ \<Rightarrow>
          (case getOpts attrs os of
             Inl e \<Rightarrow> Inl e
           | Inr os1 \<Rightarrow>
               (case attrs of
                  JStr s \<Rightarrow>
                    (case map_of (registry os1) s of
                       Some ty \<Rightarrow> Inr (ty, os1)
                     | None \<Rightarrow>
                         if isPrimitive s
                         then Inr (StringType, os1\<lparr>registry := (s, StringType) # registry os1\<rparr>)
                         else Inl (UndefinedTypeName s))
                | _ \<Rightarrow>
                    (case get_attr attrs ''type'' of
                       Inl e \<Rightarrow> Inl e
                     | Inr tn \<Rightarrow>
                         (case to_str tn of
                            Inl e \<Rightarrow> Inl e
                          | Inr key \<Rightarrow>
                              if key = ''array'' then new_ArrayType attrs os1
                              else if key = ''record'' then new_RecordType attrs os1
                              else if key = ''string'' then Inr (StringType, os1)
                              else Inl UnknownType)))))"
| "new_ArrayType attrs os =
     (case get_attr attrs ''items'' of
        Inl e \<Rightarrow> Inl e
      | Inr it \<Rightarrow>
          if \<not> truthy it then Inl (raise_with attrs MissingArrayItems)
          else (case getOpts attrs os of
                  Inl e \<Rightarrow> Inl e
                | Inr os1 \<Rightarrow>
                    (case createType it os1 of
                       Inl e \<Rightarrow> Inl e
                     | Inr (t, os2) \<Rightarrow> Inr (ArrayType t, os2))))"
| "new_RecordType attrs os =
     (case getOpts attrs os of
        Inl e \<Rightarrow> Inl e
      | Inr os1 \<Rightarrow>
          (case resolveNames attrs (namespace os1) of
             Inl e \<Rightarrow> Inl e
           | Inr (name, als) \<Rightarrow>
               (case get_attr attrs ''type'' of
                  Inl e \<Rightarrow> Inl e
                | Inr ty \<Rightarrow>
                    (case get_attr attrs ''fields'' of
                       Inl e \<Rightarrow> Inl e
                     | Inr (JArr fs) \<Rightarrow>
                         (case new_Fields fs os1 of
                            Inl e \<Rightarrow> Inl e
                          | Inr (flds, os2) \<Rightarrow>
                              if hasDuplicates (map fname flds) then Inl DuplicateFieldName
                              else Inr (RecordType name als ty flds, os2))
                     | Inr _ \<Rightarrow> Inl NonArrayFields))))"
| "new_Fields [] os = Inr ([], os)"
| "new_Fields (f # fs) os =
     (case new_Field f os of
        Inl e \<Rightarrow> Inl e
      | Inr (x, os1) \<Rightarrow>
          (case new_Fields fs os1 of
             Inl e \<Rightarrow> Inl e
           | Inr (xs, os2) \<Rightarrow> Inr (x # xs, os2)))"
| "new_Field attrs os =
     (case get_attr attrs ''name'' of
        Inl e \<Rightarrow> Inl e
      | Inr (JStr name) \<Rightarrow>
          if \<not> NAME_PATTERN name then Inl InvalidFieldName
          else (case get_attr attrs ''type'' of
                  Inl e \<Rightarrow> Inl e
                | Inr ty \<Rightarrow>
                    (case createType ty os of
                       Inl e \<Rightarrow> Inl e
                     | Inr (t, os1) \<Rightarrow>
                         (case get_attr attrs ''aliases'' of
                            Inl e \<Rightarrow> Inl e
                          | Inr al \<Rightarrow>
                              (case get_attr attrs ''order'' of
                                 Inl e \<Rightarrow> Inl e
                               | Inr ord \<Rightarrow>
                                   (case order_of ord of
                                      Inl e \<Rightarrow> Inl e
                                    | Inr w \<Rightarrow>
                                        Inr (Field' name t (if truthy al then al else JArr []) w,
                                             os1))))))
      | Inr other \<Rightarrow> Inl (raise_with other InvalidFieldName))"
  by pat_completeness auto

termination
proof -
  have m: "size v < Suc (size_list (size_prod (\<lambda>x. 0) size) kvs)"
    if "map_of kvs k = Some v" for kvs :: "(string \<times> json) list" and k v
    using that by (induction kvs) (auto split: if_splits)
  have a: "size v < size a" if "get_attr a k = Inr v" "v \<noteq> JUndefined" for a k v
    using that by (cases a) (auto simp: get_attr_def dest: m split: option.splits)
  have b: "size v < size a" if "get_attr a k = Inr v" "get_attr a k' = Inr w" "w \<noteq> JUndefined"
    for a k k' v w
    using that by (cases a) (auto simp: get_attr_def dest: m split: option.splits)
  have c: "size v < size a" if "get_attr a k = Inr v" "truthy v" for a k v
    using that by (intro a) (auto simp: truthy_def)
  show ?thesis
    by (relation "measures
         [\<lambda>x. case x of
                Inl (Inl (attrs, os)) \<Rightarrow> size attrs
              | Inl (Inr (attrs, os)) \<Rightarrow> size attrs
              | Inr (Inl (attrs, os)) \<Rightarrow> size attrs
              | Inr (Inr (Inl (fs, os))) \<Rightarrow> size_list size fs
              | Inr (Inr (Inr (f, os))) \<Rightarrow> size f,
          \<lambda>x. case x of
                Inl (Inl (attrs, os)) \<Rightarrow> Suc 0
              | _ \<Rightarrow> 0]")
      (auto dest: a b c)
qed

declare createType.simps [simp del] new_ArrayType.simps [simp del]
  new_RecordType.simps [simp del] new_Field.simps [simp del]

text \<open>\<^verbatim>\<open>parse(schema, opts)\<close> of \<^verbatim>\<open>src/index.js\<close> forwards to \<^verbatim>\<open>createType\<close>.\<close>

definition parse :: "json \<Rightarrow> opts \<Rightarrow> error + atype \<times> opts" where
  "parse schema os = createType schema os"

section \<open>Reference encoding used in the proofs\<close>

text \<open>
  The byte sequence of a zigzag varint, the effect of writing a byte sequence into a
  buffer, and the statement that a buffer holds a byte sequence at a position. These are
  not part of the program; the lemmas below relate the loops of the codec to them.
\<close>

function varint :: "int \<Rightarrow> 8 word list" where
  "varint v = (if v < 128 then [word_of_int v] else word_of_int (v mod 128 + 128) # varint (v div 128))"
  by pat_completeness auto
termination
  by (relation "measure nat") auto

declare varint.simps [simp del]

fun blit :: "8 word list \<Rightarrow> int \<Rightarrow> 8 word list \<Rightarrow> 8 word list" where
  "blit bf p [] = bf"
| "blit bf p (x # xs) =
     blit (if 0 \<le> p \<and> p < int (length bf) then bf[nat p := x] else bf) (p + 1) xs"

definition zigzag :: "int \<Rightarrow> int" where
  "zigzag n = (if 0 \<le> n then 2 * n else - 2 * n - 1)"

text \<open>The number whose base-128 digits writeInt emits.\<close>

definition written :: "int \<Rightarrow> int" where
  "written n = (if (- 1073741824 \<le> n \<and> n < 1073741824) \<or> 0 \<le> n then zigzag n else fl (- n * 2 - 1))"

definition holds :: "8 word list \<Rightarrow> int \<Rightarrow> 8 word list \<Rightarrow> bool" where
  "holds bf p bs \<longleftrightarrow>
     0 \<le> p \<and> p + int (length bs) \<le> int (length bf) \<and> (\<forall>i<length bs. bf ! (nat p + i) = bs ! i)"

definition unzigzag :: "int \<Rightarrow> int" where
  "unzigzag v = (if even v then v div 2 else - (v + 1) div 2)"

section \<open>Lemmas about the cursor codec\<close>

lemma to_int32_id: "- (2 ^ 31) \<le> x \<Longrightarrow> x < 2 ^ 31 \<Longrightarrow> to_int32 x = x"
  unfolding to_int32_def by (rule signed_take_bit_int_eq_self) simp_all

lemma js_and_mask: "n \<le> 31 \<Longrightarrow> js_and a (2 ^ n - 1) = a mod 2 ^ n"
proof -
  assume n: "n \<le> 31"
  have "(2::int) ^ n \<le> 2 ^ 31" using n by (intro power_increasing) simp_all
  moreover have "(0::int) < 2 ^ n" by simp
  ultimately have "to_int32 (2 ^ n - 1) = 2 ^ n - 1"
    by (intro to_int32_id) linarith+
  then have "js_and a (2 ^ n - 1) = take_bit n (signed_take_bit 31 a)"
    by (simp add: js_and_def to_int32_def take_bit_eq_mask mask_eq_exp_minus_1)
  also have "\<dots> = take_bit n a" using n by (simp add: take_bit_signed_take_bit)
  finally show ?thesis by (simp add: take_bit_eq_mod)
qed

lemma js_and_127: "js_and a 127 = a mod 128"
  using js_and_mask [of 7 a] by simp

lemma js_and_1: "js_and a 1 = a mod 2"
  using js_and_mask [of 1 a] by simp

lemma or_low_high:
  fixes a d :: int
  assumes "0 \<le> a" "a < 2 ^ k"
  shows "a OR (d * 2 ^ k) = a + d * 2 ^ k"
proof -
  have a: "take_bit k a = a" using assms by (simp add: take_bit_int_eq_self)
  have "take_bit k a AND push_bit k d = 0"
    by (rule bit_eqI) (simp add: bit_and_iff bit_take_bit_iff bit_push_bit_iff)
  then have "a AND (d * 2 ^ k) = 0" by (simp add: a push_bit_int_def)
  then show ?thesis by (simp add: disjunctive_add_eq_or)
qed

lemma js_or_128_nonzero: "js_or x 128 \<noteq> 0"
  by (simp add: js_or_def or_eq_0_iff to_int32_def)

lemma js_or_128_low: "0 \<le> x \<Longrightarrow> x < 128 \<Longrightarrow> js_or x 128 = x + 128"
proof -
  assume x: "0 \<le> x" "x < 128"
  have "to_int32 x = x" using x by (intro to_int32_id) simp_all
  moreover have "to_int32 128 = 128" by (intro to_int32_id) simp_all
  moreover have "x OR (1 * 2 ^ 7) = x + 1 * 2 ^ 7" using x by (intro or_low_high) simp_all
  ultimately show ?thesis by (simp add: js_or_def)
qed

lemma or_store_after_store:
  assumes "0 \<le> x" "x < 128"
  shows "snd (or_store (store bf p x) p 128) = store bf p (x + 128)"
proof (cases "0 \<le> p \<and> p < int (length bf)")
  case True
  have "uint (word_of_int x :: 8 word) = x"
    using assms by (simp add: uint_word_of_int)
  moreover have "nat p < length bf" using True by (simp add: nat_less_iff)
  ultimately have "load (store bf p x) p = Some x"
    using True by (simp add: load_def store_def)
  then show ?thesis
    using True assms by (simp add: or_store_def Let_def num_of_def js_or_128_low store_def)
next
  case False
  then have "store bf' p y = bf'" if "length bf' = length bf" for bf' y
    using that by (auto simp: store_def)
  then show ?thesis by (simp add: or_store_def Let_def)
qed

lemma fst_or_store: "fst (or_store bf p 128) \<noteq> 0"
  by (simp add: or_store_def Let_def js_or_128_nonzero)

lemma js_sar_7: "0 \<le> m \<Longrightarrow> m < 2 ^ 31 \<Longrightarrow> js_sar m 7 = m div 128"
  by (simp add: js_sar_def to_int32_id drop_bit_int_def)

lemma store_word: "0 \<le> y \<Longrightarrow> y < 256 \<Longrightarrow> store bf p (uint (word_of_int y :: 8 word)) = store bf p y"
  by (simp add: store_def)

lemma write_int_loop_eq:
  "0 \<le> m \<Longrightarrow> m < 2 ^ 31 \<Longrightarrow>
   write_int_loop bf p m = Some (blit bf p (varint m), p + int (length (varint m)) - 1)"
proof (induction m arbitrary: bf p rule: varint.induct)
  case (1 v)
  show ?case
  proof (cases "v < 128")
    case True
    then have "js_sar v 7 = 0" using 1 by (simp add: js_sar_7)
    moreover have "varint v = [word_of_int v]" using True by (simp add: varint.simps)
    ultimately show ?thesis
      using True 1(2) by (subst write_int_loop.simps) (simp add: js_and_127 store_def Let_def)
  next
    case False
    have d: "js_sar v 7 = v div 128" "v div 128 \<noteq> 0" using 1 False by (simp_all add: js_sar_7)
    have v: "varint v = word_of_int (v mod 128 + 128) # varint (v div 128)"
      using False by (subst varint.simps) simp
    have ih: "write_int_loop bf' p' (v div 128) =
        Some (blit bf' p' (varint (v div 128)), p' + int (length (varint (v div 128))) - 1)" for bf' p'
      using 1 False by (intro "1.IH") simp_all
    have s: "snd (or_store (store bf p (v mod 128)) p 128) = store bf p (v mod 128 + 128)"
      by (intro or_store_after_store) simp_all
    have b: "blit bf p (varint v) = blit (store bf p (v mod 128 + 128)) (p + 1) (varint (v div 128))"
      unfolding v by (simp add: store_def)
    have l: "length (varint v) = Suc (length (varint (v div 128)))"
      by (simp add: v)
    show ?thesis
      by (subst write_int_loop.simps) (simp add: js_and_127 d fst_or_store s ih b l Let_def)
  qed
qed

lemma write_float_loop_eq:
  "0 \<le> f \<Longrightarrow>
   write_float_loop bf p f = (blit bf p (varint \<lfloor>f\<rfloor>), p + int (length (varint \<lfloor>f\<rfloor>)) - 1)"
proof (induction bf p f rule: write_float_loop.induct)
  case (1 bf p f)
  have t: "trunc f = \<lfloor>f\<rfloor>" using 1(2) by (simp add: trunc_def)
  have fd: "\<lfloor>f / 128\<rfloor> = \<lfloor>f\<rfloor> div 128"
    using floor_divide_real_eq_div [of 128 f] by simp
  show ?case
  proof (cases "1 \<le> f / 128")
    case False
    then have "\<lfloor>f\<rfloor> < 128" by (simp add: floor_less_iff)
    moreover have "0 \<le> \<lfloor>f\<rfloor>" using 1(2) by simp
    ultimately have "varint \<lfloor>f\<rfloor> = [word_of_int \<lfloor>f\<rfloor>]" "\<lfloor>f\<rfloor> mod 128 = \<lfloor>f\<rfloor>"
      by (simp_all add: varint.simps)
    then show ?thesis
      using False by (subst write_float_loop.simps) (simp add: t js_and_127 store_def Let_def)
  next
    case True
    then have ge: "\<not> \<lfloor>f\<rfloor> < 128" by (simp add: floor_less_iff)
    have v: "varint \<lfloor>f\<rfloor> = word_of_int (\<lfloor>f\<rfloor> mod 128 + 128) # varint (\<lfloor>f\<rfloor> div 128)"
      using ge by (subst varint.simps) simp
    have s: "snd (or_store (store bf p (\<lfloor>f\<rfloor> mod 128)) p 128) = store bf p (\<lfloor>f\<rfloor> mod 128 + 128)"
      by (intro or_store_after_store) simp_all
    have ih: "write_float_loop (store bf p (\<lfloor>f\<rfloor> mod 128 + 128)) (p + 1) (f / 128) =
        (blit (store bf p (\<lfloor>f\<rfloor> mod 128 + 128)) (p + 1) (varint (\<lfloor>f\<rfloor> div 128)),
         p + 1 + int (length (varint (\<lfloor>f\<rfloor> div 128))) - 1)"
      using "1.IH" [OF refl refl True fst_or_store] 1(2)
      by (simp add: t js_and_127 s fd)
    have b: "blit bf p (varint \<lfloor>f\<rfloor>) =
        blit (store bf p (\<lfloor>f\<rfloor> mod 128 + 128)) (p + 1) (varint (\<lfloor>f\<rfloor> div 128))"
      unfolding v by (simp add: store_def)
    have l: "length (varint \<lfloor>f\<rfloor>) = Suc (length (varint (\<lfloor>f\<rfloor> div 128)))"
      by (simp add: v)
    show ?thesis
      using True
      by (subst write_float_loop.simps) (simp add: t js_and_127 fst_or_store s ih b l Let_def)
  qed
qed

lemma js_shl_1: "0 \<le> x \<Longrightarrow> x < 2 ^ 30 \<Longrightarrow> js_shl x 1 = 2 * x"
  by (simp add: js_shl_def to_int32_id push_bit_int_def)

lemma js_not_eq: "- (2 ^ 31) \<le> x \<Longrightarrow> x < 2 ^ 31 \<Longrightarrow> js_not x = - x - 1"
  by (simp add: js_not_def to_int32_id not_int_def)

lemma int_path_m:
  assumes "- 1073741824 \<le> n" "n < 1073741824"
  shows "(if 0 \<le> n then js_shl n 1 else js_or (js_shl (js_not n) 1) 1) = zigzag n"
proof (cases "0 \<le> n")
  case True
  then show ?thesis using assms by (simp add: js_shl_1 zigzag_def)
next
  case False
  have a: "js_not n = - n - 1" using assms False by (intro js_not_eq) simp_all
  have b: "js_shl (- n - 1) 1 = 2 * (- n - 1)" using assms False by (intro js_shl_1) simp_all
  have c: "to_int32 (- (2 * n) - 2) = - (2 * n) - 2" using assms False by (intro to_int32_id) simp_all
  have d: "to_int32 1 = 1" by (intro to_int32_id) simp_all
  have "(1::int) OR ((- n - 1) * 2 ^ 1) = 1 + (- n - 1) * 2 ^ 1"
    by (intro or_low_high) simp_all
  then have "2 * (- n - 1) OR 1 = - 2 * n - 1"
    by (simp add: ac_simps)
  then show ?thesis using False by (simp add: a b js_or_def c d zigzag_def)
qed

lemma zigzag_bounds:
  "- 1073741824 \<le> n \<Longrightarrow> n < 1073741824 \<Longrightarrow> 0 \<le> zigzag n \<and> zigzag n < 2 ^ 31"
  by (simp add: zigzag_def)

lemma fl_nonneg: "0 \<le> x \<Longrightarrow> 0 \<le> fl x"
proof -
  assume x: "0 \<le> x"
  have "0 \<le> x div 2 ^ e" for e :: nat
    using x by (simp add: pos_imp_zdiv_nonneg_iff)
  then have "0 \<le> x div 2 ^ e + 1" "0 \<le> x div 2 ^ e" for e :: nat
    by (simp_all add: add_nonneg_nonneg)
  then show ?thesis
    using x by (auto simp: fl_def Let_def sgn_if intro!: mult_nonneg_nonneg)
qed

lemma writeInt_eq:
  "writeInt n t = Some \<lparr>buf = blit (buf t) (pos t) (varint (written n)),
                         pos = pos t + int (length (varint (written n)))\<rparr>"
proof (cases "- 1073741824 \<le> n \<and> n < 1073741824")
  case True
  then show ?thesis
    using write_int_loop_eq [of "zigzag n" "buf t" "pos t"] zigzag_bounds [of n] int_path_m [of n]
    by (simp add: writeInt_def written_def)
next
  case False
  let ?f = "if 0 \<le> n then n * 2 else fl (- n * 2 - 1)"
  have w: "written n = ?f" using False by (auto simp: written_def zigzag_def)
  have "0 \<le> ?f" using False by (auto intro: fl_nonneg)
  then have "write_float_loop (buf t) (pos t) (of_int ?f) =
      (blit (buf t) (pos t) (varint ?f), pos t + int (length (varint ?f)) - 1)"
    using write_float_loop_eq [of "of_int ?f" "buf t" "pos t"] by simp
  moreover have "\<not> (- 1073741824 \<le> n \<and> n < 1073741824)" by (rule False)
  ultimately show ?thesis
    unfolding w writeInt_def Let_def by (simp only: if_False) simp
qed

lemma holds_Cons:
  assumes "holds bf p (x # xs)"
  shows "load bf p = Some (uint x)" and "holds bf (p + 1) xs"
proof -
  have p: "0 \<le> p" "p + 1 + int (length xs) \<le> int (length bf)"
    and nth: "\<And>i. i < Suc (length xs) \<Longrightarrow> bf ! (nat p + i) = (x # xs) ! i"
    using assms by (simp_all add: holds_def)
  show "load bf p = Some (uint x)"
    using p nth [of 0] by (simp add: load_def)
  have "bf ! (nat (p + 1) + i) = xs ! i" if "i < length xs" for i
    using nth [of "Suc i"] that p by (simp add: nat_add_distrib)
  then show "holds bf (p + 1) xs"
    using p by (simp add: holds_def)
qed

lemma length_blit: "length (blit bf p bs) = length bf"
  by (induction bs arbitrary: bf p) simp_all

lemma blit_below: "j < nat p \<Longrightarrow> 0 \<le> p \<Longrightarrow> blit bf p bs ! j = bf ! j"
  by (induction bs arbitrary: bf p) (simp_all add: nat_add_distrib)

lemma holds_blit:
  "0 \<le> p \<Longrightarrow> p + int (length bs) \<le> int (length bf) \<Longrightarrow> holds (blit bf p bs) p bs"
proof (induction bs arbitrary: bf p)
  case Nil
  then show ?case by (simp add: holds_def)
next
  case (Cons x xs)
  let ?bf = "bf[nat p := x]"
  have r: "0 \<le> p \<and> p < int (length bf)" using Cons.prems by simp
  have h: "holds (blit ?bf (p + 1) xs) (p + 1) xs"
    using Cons.prems by (intro Cons.IH) simp_all
  have z: "blit ?bf (p + 1) xs ! nat p = x"
    using r blit_below [of "nat p" "p + 1" ?bf xs] by (simp add: nat_less_iff)
  have "blit ?bf (p + 1) xs ! (nat p + i) = (x # xs) ! i" if "i < Suc (length xs)" for i
  proof (cases i)
    case 0
    then show ?thesis using z by simp
  next
    case (Suc j)
    then show ?thesis
      using h that r by (simp add: holds_def nat_add_distrib)
  qed
  then show ?case
    using r Cons.prems by (simp add: holds_def length_blit)
qed

lemma js_and_128_zero_iff: "js_and b 128 = 0 \<longleftrightarrow> even (b div 128)"
proof -
  have "to_int32 128 = 128" by (simp add: to_int32_id)
  moreover have "signed_take_bit 31 b AND 2 ^ 7 = 0 \<longleftrightarrow> \<not> bit (signed_take_bit 31 b) 7"
    by (rule and_exp_eq_0_iff_not_bit)
  ultimately have "js_and b 128 = 0 \<longleftrightarrow> \<not> bit (signed_take_bit 31 b) 7"
    by (simp add: js_and_def to_int32_def)
  also have "\<dots> \<longleftrightarrow> \<not> bit b 7" by (simp add: bit_signed_take_bit_iff)
  finally show ?thesis by (simp add: bit_iff_odd)
qed

lemma uint_byte: "0 \<le> y \<Longrightarrow> y < 256 \<Longrightarrow> uint (word_of_int y :: 8 word) = y"
  by (simp add: uint_word_of_int)

text \<open>What one byte of a varint looks like to the reader.\<close>

lemma varint_head:
  assumes "holds bf p (varint v)" "0 \<le> v"
  shows "js_and (num_of (load bf p)) 127 = v mod 128"
    and "js_and (num_of (load bf p)) 128 = 0 \<longleftrightarrow> v < 128"
    and "\<not> v < 128 \<Longrightarrow> holds bf (p + 1) (varint (v div 128))"
proof -
  show "\<not> v < 128 \<Longrightarrow> holds bf (p + 1) (varint (v div 128))"
    using assms(1) by (subst (asm) varint.simps) (simp add: holds_Cons(2))
  have l: "num_of (load bf p) = (if v < 128 then v else v mod 128 + 128)"
  proof (cases "v < 128")
    case True
    then have "holds bf p [word_of_int v]" using assms(1) by (subst (asm) varint.simps) simp
    then have "load bf p = Some (uint (word_of_int v :: 8 word))" by (rule holds_Cons(1))
    then show ?thesis using True assms(2) by (simp add: num_of_def uint_byte)
  next
    case False
    then have "holds bf p (word_of_int (v mod 128 + 128) # varint (v div 128))"
      using assms(1) by (subst (asm) varint.simps) simp
    then have "load bf p = Some (uint (word_of_int (v mod 128 + 128) :: 8 word))" by (rule holds_Cons(1))
    moreover have "uint (word_of_int (v mod 128 + 128) :: 8 word) = v mod 128 + 128"
      by (intro uint_byte) simp_all
    ultimately show ?thesis using False by (simp add: num_of_def)
  qed
  show "js_and (num_of (load bf p)) 127 = v mod 128"
    using assms(2) by (simp add: l js_and_127)
  show "js_and (num_of (load bf p)) 128 = 0 \<longleftrightarrow> v < 128"
    using assms(2) by (simp add: l js_and_128_zero_iff)
qed

lemma js_or_shl:
  assumes "0 \<le> n" "n < 2 ^ K" "0 \<le> d" "d < 128" "K \<le> 21"
  shows "js_or n (js_shl d (int K)) = n + d * 2 ^ K"
proof -
  have K: "(2::int) ^ K \<le> 2 ^ 21" using assms(5) by (intro power_increasing) simp_all
  have d: "d * 2 ^ K \<le> 127 * 2 ^ 21"
    using assms(3,4) K by (intro mult_mono) simp_all
  have d0: "0 \<le> d * 2 ^ K" using assms(3) by simp
  have "to_int32 d = d" using assms by (intro to_int32_id) simp_all
  moreover have "nat (int K mod 32) = K" using assms(5) by simp
  moreover have "to_int32 (d * 2 ^ K) = d * 2 ^ K" using d d0 by (intro to_int32_id) simp_all
  ultimately have s: "js_shl d (int K) = d * 2 ^ K"
    by (simp add: js_shl_def push_bit_int_def)
  have "to_int32 n = n" using assms(1,2) K by (intro to_int32_id) simp_all
  then show ?thesis
    using or_low_high [OF assms(1,2), of d] by (simp add: s js_or_def \<open>to_int32 (d * 2 ^ K) = d * 2 ^ K\<close>)
qed

lemma read_int_loop_step:
  assumes "holds bf p (varint v)" "0 \<le> v" "0 \<le> n" "n < 2 ^ K" "K \<le> 21"
  shows "read_int_loop bf p n (int K) =
     (if v < 128 then (p + 1, n + v * 2 ^ K, 0)
      else if K < 21 then read_int_loop bf (p + 1) (n + v mod 128 * 2 ^ K) (int K + 7)
      else (p + 1, n + v mod 128 * 2 ^ K, js_and (num_of (load bf p)) 128))"
proof -
  have o: "js_or n (js_shl (v mod 128) (int K)) = n + v mod 128 * 2 ^ K"
    using assms by (intro js_or_shl) simp_all
  have a: "js_and (num_of (load bf p)) 127 = v mod 128"
    by (rule varint_head(1) [OF assms(1,2)])
  show ?thesis
  proof (cases "v < 128")
    case True
    then have h: "js_and (num_of (load bf p)) 128 = 0"
      using varint_head(2) [OF assms(1,2)] by simp
    have "v mod 128 = v" using True assms(2) by simp
    then have "js_or n (js_shl (v mod 128) (int K)) = n + v * 2 ^ K"
      using o by simp
    then show ?thesis
      using True by (subst read_int_loop.simps) (simp add: Let_def a h)
  next
    case False
    then have h: "js_and (num_of (load bf p)) 128 \<noteq> 0"
      using varint_head(2) [OF assms(1,2)] by simp
    show ?thesis
      using False h by (subst read_int_loop.simps) (simp add: Let_def a o)
  qed
qed

lemma varint_len_small: "v < 128 \<Longrightarrow> length (varint v) = 1"
  by (subst varint.simps) simp

lemma varint_len_big: "\<not> v < 128 \<Longrightarrow> length (varint v) = Suc (length (varint (v div 128)))"
  by (subst varint.simps) simp

lemma read_int_loop_varint:
  assumes "holds bf p (varint v)" "0 \<le> v"
  shows "v < 2 ^ 28 \<Longrightarrow> read_int_loop bf p 0 0 = (p + int (length (varint v)), v, 0)"
    and "\<not> v < 2 ^ 28 \<Longrightarrow> \<exists>h. h \<noteq> 0 \<and> read_int_loop bf p 0 0 = (p + 4, v mod 2 ^ 28, h)"
    and "\<not> v < 2 ^ 28 \<Longrightarrow> holds bf (p + 4) (varint (v div 2 ^ 28))"
proof -
  define v1 where "v1 = v div 128"
  define v2 where "v2 = v1 div 128"
  define v3 where "v3 = v2 div 128"
  have nn: "0 \<le> v1" "0 \<le> v2" "0 \<le> v3"
    using assms(2) by (simp_all add: v1_def v2_def v3_def pos_imp_zdiv_nonneg_iff)
  have d2: "v2 = v div 16384" and d3: "v3 = v div 2097152"
    by (simp_all add: v1_def v2_def v3_def zdiv_zmult2_eq)
  have d4: "v3 div 128 = v div 268435456"
    by (simp add: v1_def v2_def v3_def zdiv_zmult2_eq)
  have m2: "v mod 128 + v1 mod 128 * 128 = v mod 16384"
    using zmod_zmult2_eq [of 128 v 128] by (simp add: v1_def)
  have m3: "v mod 16384 + v2 mod 128 * 16384 = v mod 2097152"
    using zmod_zmult2_eq [of 128 v 16384] by (simp add: d2)
  have m4: "v mod 2097152 + v3 mod 128 * 2097152 = v mod 268435456"
    using zmod_zmult2_eq [of 128 v 2097152] by (simp add: d3)
  have s0: "read_int_loop bf p 0 0 =
      (if v < 128 then (p + 1, v, 0) else read_int_loop bf (p + 1) (v mod 128) 7)"
    using read_int_loop_step [OF assms, of 0 0] by simp
  have h1: "holds bf (p + 1) (varint v1)" if "\<not> v < 128"
    using varint_head(3) [OF assms that] by (simp add: v1_def)
  have s1: "read_int_loop bf (p + 1) (v mod 128) 7 =
      (if v1 < 128 then (p + 2, v mod 128 + v1 * 128, 0)
       else read_int_loop bf (p + 2) (v mod 16384) 14)" if "\<not> v < 128"
    using read_int_loop_step [OF h1 [OF that] nn(1), of "v mod 128" 7] by (simp add: m2 add.commute)
  have h2: "holds bf (p + 2) (varint v2)" if "\<not> v < 128" "\<not> v1 < 128"
    using varint_head(3) [OF h1 [OF that(1)] nn(1) that(2)] by (simp add: v2_def add.commute)
  have s2: "read_int_loop bf (p + 2) (v mod 16384) 14 =
      (if v2 < 128 then (p + 3, v mod 16384 + v2 * 16384, 0)
       else read_int_loop bf (p + 3) (v mod 2097152) 21)" if "\<not> v < 128" "\<not> v1 < 128"
    using read_int_loop_step [OF h2 [OF that] nn(2), of "v mod 16384" 14] by (simp add: m3 add.commute)
  have h3: "holds bf (p + 3) (varint v3)" if "\<not> v < 128" "\<not> v1 < 128" "\<not> v2 < 128"
    using varint_head(3) [OF h2 [OF that(1,2)] nn(2) that(3)] by (simp add: v3_def add.commute)
  have s3: "read_int_loop bf (p + 3) (v mod 2097152) 21 =
      (if v3 < 128 then (p + 4, v mod 2097152 + v3 * 2097152, 0)
       else (p + 4, v mod 268435456, js_and (num_of (load bf (p + 3))) 128))"
    if "\<not> v < 128" "\<not> v1 < 128" "\<not> v2 < 128"
    using read_int_loop_step [OF h3 [OF that] nn(3), of "v mod 2097152" 21] by (simp add: m4 add.commute)
  have r1: "v mod 128 + v1 * 128 = v" by (simp add: v1_def)
  have r2: "v mod 16384 + v2 * 16384 = v" by (simp add: d2)
  have r3: "v mod 2097152 + v3 * 2097152 = v" by (simp add: d3)
  have big: "\<not> v < 128 \<and> \<not> v1 < 128 \<and> \<not> v2 < 128 \<and> \<not> v3 < 128" if "\<not> v < 2 ^ 28"
  proof -
    have g: "268435456 \<le> v" using that by simp
    have "268435456 div 128 \<le> v div 128" "268435456 div 16384 \<le> v div 16384"
      "268435456 div 2097152 \<le> v div 2097152"
      using g by (intro zdiv_mono1; simp)+
    then show ?thesis using g by (simp add: v1_def d2 d3)
  qed
  have small: "v < 128 \<or> v1 < 128 \<or> v2 < 128 \<or> v3 < 128" if "v < 2 ^ 28"
  proof -
    have "v div 2097152 \<le> 268435455 div 2097152"
      using that by (intro zdiv_mono1) simp_all
    then show ?thesis by (simp add: d3)
  qed
  show "read_int_loop bf p 0 0 = (p + int (length (varint v)), v, 0)" if lt: "v < 2 ^ 28"
  proof -
    consider "v < 128" | "\<not> v < 128" "v1 < 128" | "\<not> v < 128" "\<not> v1 < 128" "v2 < 128"
      | "\<not> v < 128" "\<not> v1 < 128" "\<not> v2 < 128" "v3 < 128"
      using small [OF lt] by blast
    then show ?thesis
    proof cases
      case 1
      then show ?thesis by (simp add: s0 varint_len_small)
    next
      case 2
      then have "length (varint v) = 2"
        by (simp add: varint_len_big varint_len_small v1_def)
      then show ?thesis using 2 by (simp add: s0 s1 r1)
    next
      case 3
      then have "length (varint v) = 3"
        by (simp add: varint_len_big varint_len_small v1_def v2_def)
      then show ?thesis using 3 by (simp add: s0 s1 s2 r2)
    next
      case 4
      then have "length (varint v) = 4"
        by (simp add: varint_len_big varint_len_small v1_def v2_def v3_def)
      then show ?thesis using 4 by (simp add: s0 s1 s2 s3 r3)
    qed
  qed
  show "\<exists>h. h \<noteq> 0 \<and> read_int_loop bf p 0 0 = (p + 4, v mod 2 ^ 28, h)" if "\<not> v < 2 ^ 28"
  proof -
    have b: "\<not> v < 128" "\<not> v1 < 128" "\<not> v2 < 128" "\<not> v3 < 128" using big [OF that] by simp_all
    have "js_and (num_of (load bf (p + 3))) 128 \<noteq> 0"
      using varint_head(2) [OF h3 [OF b(1,2,3)] nn(3)] b(4) by simp
    then show ?thesis using b by (simp add: s0 s1 s2 s3)
  qed
  show "holds bf (p + 4) (varint (v div 2 ^ 28))" if "\<not> v < 2 ^ 28"
  proof -
    have b: "\<not> v < 128" "\<not> v1 < 128" "\<not> v2 < 128" "\<not> v3 < 128" using big [OF that] by simp_all
    show ?thesis
      using varint_head(3) [OF h3 [OF b(1,2,3)] nn(3) b(4)] by (simp add: d4 add.commute)
  qed
qed

lemma bitlen_le: "x < 2 ^ k \<Longrightarrow> bitlen x \<le> k"
proof (induction k arbitrary: x)
  case 0
  then show ?case by (subst bitlen.simps) simp
next
  case (Suc k)
  have "x div 2 < 2 ^ k" using Suc.prems by simp
  then have "bitlen (x div 2) \<le> k" by (rule Suc.IH)
  then show ?case by (subst bitlen.simps) simp
qed

lemma fl_id:
  assumes "0 \<le> x" "x < 2 ^ 54" "even x \<or> x < 2 ^ 53"
  shows "fl x = x"
proof (cases "bitlen x \<le> 53")
  case True
  then show ?thesis using assms(1) by (simp add: fl_def Let_def)
next
  case False
  have "bitlen x \<le> 54" using assms(2) by (rule bitlen_le)
  then have e: "bitlen x - 53 = 1" using False by simp
  have "\<not> x < 2 ^ 53" using False bitlen_le [of x 53] by blast
  then have ev: "even x" and pos: "0 < x" using assms(3) by auto
  then have "x mod 2 = 0" by simp
  then show ?thesis
    using assms(1) ev pos by (simp add: fl_def Let_def e)
qed

lemma read_float_loop_varint:
  assumes "holds bf p (varint w)" "0 \<le> w" "0 \<le> f" "0 \<le> fk" "even fk"
    and "f + w * fk < 2 ^ 54" "even (f + w * fk) \<or> f + w * fk < 2 ^ 53"
  shows "read_float_loop bf p f fk = (p + int (length (varint w)), f + w * fk)"
  using assms
proof (induction w arbitrary: p f fk rule: varint.induct)
  case (1 w)
  let ?s = "f + w mod 128 * fk"
  have a: "js_and (num_of (load bf p)) 127 = w mod 128"
    by (rule varint_head(1) [OF "1.prems"(1,2)])
  have dm: "w = w div 128 * 128 + w mod 128" by simp
  have "w * fk = (w div 128 * 128 + w mod 128) * fk" by simp
  then have tot: "f + w * fk = ?s + w div 128 * (fk * 128)"
    by (simp only: algebra_simps)
  have rest: "0 \<le> w div 128 * (fk * 128)"
    using "1.prems"(2,4) by (simp add: pos_imp_zdiv_nonneg_iff)
  have s0: "0 \<le> ?s" using "1.prems"(3,4) by simp
  have s1: "?s < 2 ^ 54" using "1.prems"(6) rest tot by linarith
  have s2: "even ?s \<or> ?s < 2 ^ 53"
  proof (cases "even (f + w * fk)")
    case True
    then have "even (?s + w div 128 * (fk * 128))" by (simp only: tot)
    then show ?thesis by simp
  next
    case False
    then have "f + w * fk < 2 ^ 53" using "1.prems"(7) by blast
    then show ?thesis using rest tot by linarith
  qed
  have fl: "fl ?s = ?s" using s0 s1 s2 by (rule fl_id)
  show ?case
  proof (cases "w < 128")
    case True
    then have h: "js_and (num_of (load bf p)) 128 = 0"
      using varint_head(2) [OF "1.prems"(1,2)] by simp
    have "w mod 128 = w" using True "1.prems"(2) by simp
    then show ?thesis
      using True fl by (subst read_float_loop.simps) (simp add: Let_def a h varint_len_small)
  next
    case False
    then have h: "js_and (num_of (load bf p)) 128 \<noteq> 0"
      using varint_head(2) [OF "1.prems"(1,2)] by simp
    have hd: "holds bf (p + 1) (varint (w div 128))"
      by (rule varint_head(3) [OF "1.prems"(1,2) False])
    have "read_float_loop bf (p + 1) ?s (fk * 128) =
        (p + 1 + int (length (varint (w div 128))), ?s + w div 128 * (fk * 128))"
    proof (rule "1.IH" [OF False hd])
      show "0 \<le> w div 128" using "1.prems"(2) by (simp add: pos_imp_zdiv_nonneg_iff)
      show "0 \<le> ?s" by (rule s0)
      show "0 \<le> fk * 128" using "1.prems"(4) by simp
      show "even (fk * 128)" by simp
      show "?s + w div 128 * (fk * 128) < 2 ^ 54" using "1.prems"(6) tot by simp
      show "even (?s + w div 128 * (fk * 128)) \<or> ?s + w div 128 * (fk * 128) < 2 ^ 53"
        using "1.prems"(7) tot by simp
    qed
    then show ?thesis
      using False h tot
      by (subst read_float_loop.simps) (simp add: Let_def a fl varint_len_big)
  qed
qed

lemma readInt_varint:
  assumes "holds (buf t) (pos t) (varint v)" "0 \<le> v" "v < 2 ^ 54" "even v \<or> v < 2 ^ 53"
  shows "readInt t = (unzigzag v, t\<lparr>pos := pos t + int (length (varint v))\<rparr>)"
proof (cases "v < 2 ^ 28")
  case True
  have r: "read_int_loop (buf t) (pos t) 0 0 = (pos t + int (length (varint v)), v, 0)"
    using read_int_loop_varint(1) [OF assms(1,2) True] .
  have i: "to_int32 (v div 2) = v div 2" using True assms(2) by (intro to_int32_id) simp_all
  have s: "js_sar v 1 = v div 2"
    using True assms(2) by (simp add: js_sar_def to_int32_id drop_bit_int_def)
  have m1: "to_int32 (- 1) = - 1" by (intro to_int32_id) simp_all
  have z: "to_int32 0 = 0" by (intro to_int32_id) simp_all
  have "js_xor (js_sar v 1) (- js_and v 1) = unzigzag v"
  proof (cases "even v")
    case True
    then have "v mod 2 = 0" by simp
    then show ?thesis using True by (simp add: js_xor_def s js_and_1 i z unzigzag_def)
  next
    case False
    then have "v mod 2 = 1" by (simp add: odd_iff_mod_2_eq_one)
    moreover have "- (v + 1) div 2 = - (v div 2) - 1"
      using False by (auto elim!: oddE)
    ultimately show ?thesis
      using False by (simp add: js_xor_def s js_and_1 i m1 unzigzag_def not_int_def)
  qed
  then show ?thesis by (simp add: readInt_def r)
next
  case False
  obtain h where h: "h \<noteq> 0" "read_int_loop (buf t) (pos t) 0 0 = (pos t + 4, v mod 2 ^ 28, h)"
    using read_int_loop_varint(2) [OF assms(1,2) False] by blast
  have hd: "holds (buf t) (pos t + 4) (varint (v div 2 ^ 28))"
    by (rule read_int_loop_varint(3) [OF assms(1,2) False])
  have tot: "v mod 2 ^ 28 + v div 2 ^ 28 * 268435456 = v" by simp
  have len: "length (varint v) = 4 + length (varint (v div 2 ^ 28))"
  proof -
    have g: "268435456 \<le> v" using False by simp
    have b: "268435456 div 128 \<le> v div 128" "268435456 div 16384 \<le> v div 16384"
      "268435456 div 2097152 \<le> v div 2097152"
      using g by (intro zdiv_mono1; simp)+
    have "length (varint v) = Suc (Suc (Suc (Suc (length (varint (v div 128 div 128 div 128 div 128))))))"
      using g b by (simp add: varint_len_big zdiv_zmult2_eq)
    moreover have "v div 128 div 128 div 128 div 128 = v div (128 * 128 * 128 * 128)"
      by (simp only: zdiv_zmult2_eq)
    ultimately show ?thesis by simp
  qed
  have f: "read_float_loop (buf t) (pos t + 4) (v mod 2 ^ 28) 268435456 =
      (pos t + 4 + int (length (varint (v div 2 ^ 28))), v)"
    using read_float_loop_varint [OF hd, of "v mod 2 ^ 28" 268435456] assms(2,3,4) tot
    by (simp add: pos_imp_zdiv_nonneg_iff)
  have e: "(if v mod 2 \<noteq> 0 then - fl (v + 1) else v) div 2 = unzigzag v"
  proof (cases "even v")
    case True
    then show ?thesis by (simp add: unzigzag_def)
  next
    case False
    then have "v < 2 ^ 53" using assms(4) by simp
    then have "fl (v + 1) = v + 1" using assms(2) False by (intro fl_id) simp_all
    moreover have "v mod 2 \<noteq> 0" using False by (simp add: odd_iff_mod_2_eq_one)
    ultimately show ?thesis using False by (simp add: unzigzag_def)
  qed
  show ?thesis
    using h e f by (simp add: readInt_def len)
qed

lemma unzigzag_zigzag: "unzigzag (zigzag n) = n"
  by (simp add: unzigzag_def zigzag_def)

lemma written_in_range:
  assumes "- (2 ^ 52) \<le> n" "n \<le> 2 ^ 53 - 1"
  shows "written n = zigzag n" "0 \<le> zigzag n" "zigzag n < 2 ^ 54" "even (zigzag n) \<or> zigzag n < 2 ^ 53"
proof -
  have "fl (- n * 2 - 1) = - n * 2 - 1" if "n < 0"
    using that assms by (intro fl_id) simp_all
  then show "written n = zigzag n"
    by (auto simp: written_def zigzag_def)
  show "0 \<le> zigzag n" "zigzag n < 2 ^ 54" "even (zigzag n) \<or> zigzag n < 2 ^ 53"
    using assms by (simp_all add: zigzag_def)
qed

section \<open>Lemmas about the UTF-8 codec and the string primitives\<close>

lemma cont_byte:
  fixes r :: int
  assumes "0 \<le> r \<and> r < 64"
  shows "\<not> 128 + r < 128" "\<not> 191 < 128 + r" "(128 + r) mod 64 = r"
  using assms mod_mult_self4 [of 64 2 r] by simp_all

lemma lead_mod:
  fixes y :: int
  shows "0 \<le> y \<Longrightarrow> y < 32 \<Longrightarrow> (192 + y) mod 32 = y"
    "0 \<le> y \<Longrightarrow> y < 16 \<Longrightarrow> (224 + y) mod 16 = y"
    "0 \<le> y \<Longrightarrow> y < 8 \<Longrightarrow> (240 + y) mod 8 = y"
  using mod_mult_self4 [of 32 6 y] mod_mult_self4 [of 16 14 y] mod_mult_self4 [of 8 30 y]
  by simp_all

lemma split64:
  fixes c :: int
  obtains x y z r0 r1 r2 where "c = 64 * x + r0" "x = 64 * y + r1" "y = 64 * z + r2"
    "0 \<le> r0 \<and> r0 < 64" "0 \<le> r1 \<and> r1 < 64" "0 \<le> r2 \<and> r2 < 64"
    "c div 64 = x" "c div 4096 = y" "c div 262144 = z"
    "c mod 64 = r0" "x mod 64 = r1" "y mod 64 = r2"
proof
  show "c = 64 * (c div 64) + c mod 64" by simp
  show "c div 64 = 64 * (c div 4096) + c div 64 mod 64"
    using zdiv_zmult2_eq [of 64 c 64] by simp
  show "c div 4096 = 64 * (c div 262144) + c div 4096 mod 64"
    using zdiv_zmult2_eq [of 64 c 4096] by simp
qed simp_all

lemma utf8_decode_bytes:
  assumes "scalar_value c"
  shows "utf8_decode 0 0 0 0x80 0xBF (utf8_bytes c @ rest) = c # utf8_decode 0 0 0 0x80 0xBF rest"
proof -
  have sc: "0 \<le> c" "c < 1114112" "c < 55296 \<or> 57343 < c"
    using assms by (auto simp: scalar_value_def is_surrogate_def)
  obtain x y z r0 r1 r2 where eq: "c = 64 * x + r0" "x = 64 * y + r1" "y = 64 * z + r2"
    and r: "0 \<le> r0 \<and> r0 < 64" "0 \<le> r1 \<and> r1 < 64" "0 \<le> r2 \<and> r2 < 64"
    and dv: "c div 64 = x" "c div 4096 = y" "c div 262144 = z"
    and md: "c mod 64 = r0" "x mod 64 = r1" "y mod 64 = r2"
    by (rule split64)
  consider "c < 0x80" | "0x80 \<le> c" "c < 0x800" | "0x800 \<le> c" "c < 0x10000" | "0x10000 \<le> c"
    by linarith
  then show ?thesis
  proof cases
    case 1
    then show ?thesis using sc(1) by (simp add: utf8_bytes_def)
  next
    case 2
    have b: "2 \<le> x" "x < 32" using 2 eq r by linarith+
    have bs: "utf8_bytes c = [192 + x, 128 + r0]"
      using 2 by (simp add: utf8_bytes_def md dv)
    have d: "x * 64 + r0 = c" using eq by simp
    show ?thesis
      unfolding bs using b r by (simp add: lead_mod cont_byte [OF r(1)] d)
  next
    case 3
    have y: "0 \<le> y" "y < 16" using 3 eq r by linarith+
    have bs: "utf8_bytes c = [224 + y, 128 + r1, 128 + r0]"
      using 3 by (simp add: utf8_bytes_def md dv)
    have lo: "y = 0 \<Longrightarrow> \<not> 128 + r1 < 160" using 3 eq r by linarith
    have hi: "y = 13 \<Longrightarrow> \<not> 159 < 128 + r1" using 3 eq r sc by linarith
    have d: "(y * 64 + r1) * 64 + r0 = c" using eq by simp
    show ?thesis
      unfolding bs using y lo hi r
      by (simp add: lead_mod cont_byte [OF r(1)] cont_byte [OF r(2)]) (use eq in \<open>intro conjI impI; linarith\<close>)
  next
    case 4
    have z: "0 \<le> z" "z < 5" using 4 sc eq r by linarith+
    have bs: "utf8_bytes c = [240 + z, 128 + r2, 128 + r1, 128 + r0]"
      using 4 by (simp add: utf8_bytes_def md dv)
    have lo: "z = 0 \<Longrightarrow> \<not> 128 + r2 < 144" using 4 eq r by linarith
    have hi: "z = 4 \<Longrightarrow> \<not> 143 < 128 + r2" using 4 eq r sc by linarith
    have d: "((z * 64 + r2) * 64 + r1) * 64 + r0 = c" using eq by simp
    show ?thesis
      unfolding bs using z lo hi r
      by (simp add: lead_mod cont_byte [OF r(1)] cont_byte [OF r(2)] cont_byte [OF r(3)])
        (use eq in \<open>intro conjI impI; linarith\<close>)
  qed
qed

lemma utf8_bytes_lt_256:
  "0 \<le> c \<Longrightarrow> c < 1114112 \<Longrightarrow> b \<in> set (utf8_bytes c) \<Longrightarrow> 0 \<le> b \<and> b < 256"
proof -
  assume c0: "0 \<le> c" and c: "c < 1114112" and b: "b \<in> set (utf8_bytes c)"
  obtain x y z r0 r1 r2 where eq: "c = 64 * x + r0" "x = 64 * y + r1" "y = 64 * z + r2"
    and r: "0 \<le> r0 \<and> r0 < 64" "0 \<le> r1 \<and> r1 < 64" "0 \<le> r2 \<and> r2 < 64"
    and dv: "c div 64 = x" "c div 4096 = y" "c div 262144 = z"
    and md: "c mod 64 = r0" "x mod 64 = r1" "y mod 64 = r2"
    by (rule split64)
  have "0 \<le> x" "0 \<le> y" "0 \<le> z" using c0 eq r by linarith+
  moreover have "x < 32" if "c < 2048" using that eq r by linarith
  moreover have "y < 16" if "c < 65536" using that eq r by linarith
  moreover have "z < 5" using c eq r by linarith
  ultimately show ?thesis
    using b r c0 by (auto simp: utf8_bytes_def dv md split: if_splits)
qed

lemma utf8_decode_concat:
  "list_all scalar_value s \<Longrightarrow> utf8_decode 0 0 0 0x80 0xBF (concat (map utf8_bytes s)) = s"
  by (induction s) (simp_all add: utf8_decode_bytes)

lemma text_encode_scalar:
  assumes "list_all scalar_value s"
  shows "map uint (text_encode s) = concat (map utf8_bytes s)"
proof -
  have 1: "map (\<lambda>c. utf8_bytes (if is_surrogate c then 0xFFFD else c)) s = map utf8_bytes s"
    using assms by (induction s) (simp_all add: scalar_value_def)
  have "0 \<le> b \<and> b < 256" if "b \<in> set (concat (map utf8_bytes s))" for b
    using that assms utf8_bytes_lt_256 by (auto simp: list_all_iff scalar_value_def)
  then have "map (\<lambda>b. uint (word_of_int b :: 8 word)) (concat (map utf8_bytes s)) = concat (map utf8_bytes s)"
    by (intro map_idI) (simp add: uint_word_of_int)
  then have "map uint (map (word_of_int :: int \<Rightarrow> 8 word) (concat (map utf8_bytes s))) = concat (map utf8_bytes s)"
    by (simp add: comp_def)
  then show ?thesis by (simp add: text_encode_def 1)
qed

lemma text_decode_encode:
  assumes "list_all scalar_value s" "s = [] \<or> hd s \<noteq> 0xFEFF"
  shows "text_decode (text_encode s) = s"
proof -
  have "utf8_decode 0 0 0 0x80 0xBF (map uint (text_encode s)) = s"
    using assms(1) by (simp only: text_encode_scalar utf8_decode_concat)
  then show ?thesis
    using assms(2) by (cases s) (simp_all add: text_decode_def)
qed

lemma length_utf8_bytes: "utf16_units c \<le> length (utf8_bytes c)" "128 \<le> c \<Longrightarrow> utf16_units c < length (utf8_bytes c)"
  by (simp_all add: utf16_units_def utf8_bytes_def)

lemma length_text_encode: "length (text_encode s) = sum_list (map (\<lambda>c. length (utf8_bytes (if is_surrogate c then 0xFFFD else c))) s)"
  by (simp add: text_encode_def length_concat comp_def)

lemma js_length_le: "js_length s \<le> length (text_encode s)"
  unfolding js_length_def length_text_encode
proof (induction s)
  case Nil
  show ?case by simp
next
  case (Cons c s)
  have "utf16_units c \<le> length (utf8_bytes (if is_surrogate c then 0xFFFD else c))"
    using length_utf8_bytes(1) [of c] by (auto simp: is_surrogate_def utf16_units_def utf8_bytes_def)
  then show ?case using Cons by simp
qed

lemma js_length_less:
  assumes "\<exists>c\<in>set s. 128 \<le> c"
  shows "js_length s < length (text_encode s)"
proof -
  obtain c where c: "c \<in> set s" "128 \<le> c" using assms by blast
  then obtain s1 s2 where s: "s = s1 @ c # s2" by (meson split_list)
  have "utf16_units c < length (utf8_bytes (if is_surrogate c then 0xFFFD else c))"
    using c(2) by (auto simp: is_surrogate_def utf16_units_def utf8_bytes_def)
  moreover have "js_length s1 \<le> length (text_encode s1)" "js_length s2 \<le> length (text_encode s2)"
    by (rule js_length_le)+
  ultimately show ?thesis
    unfolding s js_length_def length_text_encode by simp
qed

lemma written_nonneg: "0 \<le> n \<Longrightarrow> written n = 2 * n"
  by (simp add: written_def zigzag_def)

lemma holds_splice:
  assumes "holds b q bs" "q + int (length bs) \<le> p" "p + int (length x) \<le> int (length b)"
  shows "holds (take (nat p) b @ x @ drop (nat p + length x) b) q bs"
proof -
  have q: "0 \<le> q" and nth: "\<And>i. i < length bs \<Longrightarrow> b ! (nat q + i) = bs ! i"
    using assms(1) by (simp_all add: holds_def)
  have p: "nat p \<le> length b" "0 \<le> p" using assms(2,3) q by simp_all
  have "(take (nat p) b @ x @ drop (nat p + length x) b) ! (nat q + i) = bs ! i" if "i < length bs" for i
  proof -
    have "nat q + i < nat p" using that assms(2) q by simp
    then show ?thesis using p nth [OF that] by (simp add: nth_append)
  qed
  moreover have "length (take (nat p) b @ x @ drop (nat p + length x) b) = length b"
    using assms(3) p by simp
  ultimately show ?thesis
    using assms(1) by (simp add: holds_def)
qed

lemma js_slice_splice:
  assumes "0 \<le> p" "p + int (length x) \<le> int (length b)"
  shows "js_slice (take (nat p) b @ x @ drop (nat p + length x) b) p (p + int (length x)) = x"
proof -
  have l: "length (take (nat p) b @ x @ drop (nat p + length x) b) = length b"
    using assms by simp
  have n: "nat p \<le> length b" using assms by simp
  have "drop (nat p) (take (nat p) b @ x @ drop (nat p + length x) b) = x @ drop (nat p + length x) b"
    using n by simp
  then show ?thesis
    using assms unfolding js_slice_def l Let_def by simp
qed

lemma writeString_eq:
  fixes s :: jstring and t :: tap
  assumes "0 \<le> pos t"
  defines "bytes \<equiv> text_encode s"
  defines "var \<equiv> varint (2 * int (length bytes))"
  defines "b1 \<equiv> blit (buf t) (pos t) var"
  defines "p \<equiv> pos t + int (length var)"
  shows "writeString s t = Some (Inr
     (if int (length (buf t)) < p + int (length bytes)
      then \<lparr>buf = b1, pos = p + int (length bytes)\<rparr>
      else \<lparr>buf = take (nat p) b1 @ bytes @ drop (nat p + length bytes) b1,
            pos = p + int (length bytes)\<rparr>))"
proof -
  have w: "writeInt (int (length bytes)) t = Some \<lparr>buf = b1, pos = p\<rparr>"
    unfolding b1_def p_def var_def using writeInt_eq [of "int (length bytes)" t]
    by (simp add: written_nonneg)
  have p0: "0 \<le> p" using assms(1) by (simp add: p_def)
  show ?thesis
    using p0 unfolding writeString_def bytes_def [symmetric] Let_def w
    by (simp add: set_bytes_def length_blit b1_def)
qed

subsection \<open>What writeString and readString do on strings without a byte order mark\<close>

text \<open>
  Two limits of the string primitives. A tap never grows: \<^verbatim>\<open>writeString("hello")\<close> on a
  four-byte buffer writes the prefix, finds that the bytes do not fit and returns without
  writing them, and \<^verbatim>\<open>readString\<close> from the same position then returns \<^verbatim>\<open>undefined\<close>; the
  tap is left invalid, which is how callers learn of it. And UTF-8 has no encoding of a
  lone surrogate: the string made of the code unit \<open>0xD800\<close> is written as the three
  bytes of U+FFFD and read back as U+FFFD.
\<close>

lemma writeString_overflow_and_surrogate:
  "writeString [104, 101, 108, 108, 111] \<lparr>buf = [0, 0, 0, 0], pos = 0\<rparr>
     = Some (Inr \<lparr>buf = [10, 0, 0, 0], pos = 6\<rparr>)
   \<and> readString \<lparr>buf = [10, 0, 0, 0], pos = 0\<rparr> = (None, \<lparr>buf = [10, 0, 0, 0], pos = 6\<rparr>)
   \<and> writeString [0xD800] \<lparr>buf = [0, 0, 0, 0, 0, 0], pos = 0\<rparr>
     = Some (Inr \<lparr>buf = [6, 0xEF, 0xBF, 0xBD, 0, 0], pos = 4\<rparr>)
   \<and> isValid \<lparr>buf = [6, 0xEF, 0xBF, 0xBD, 0, 0], pos = 4\<rparr>
   \<and> readString \<lparr>buf = [6, 0xEF, 0xBF, 0xBD, 0, 0], pos = 0\<rparr>
     = (Some [0xFFFD], \<lparr>buf = [6, 0xEF, 0xBF, 0xBD, 0, 0], pos = 4\<rparr>)"
proof (intro conjI)
  show "writeString [104, 101, 108, 108, 111] \<lparr>buf = [0, 0, 0, 0], pos = 0\<rparr>
     = Some (Inr \<lparr>buf = [10, 0, 0, 0], pos = 6\<rparr>)"
    by code_simp
  show "readString \<lparr>buf = [10, 0, 0, 0], pos = 0\<rparr> = (None, \<lparr>buf = [10, 0, 0, 0], pos = 6\<rparr>)"
    by code_simp
  show "writeString [0xD800] \<lparr>buf = [0, 0, 0, 0, 0, 0], pos = 0\<rparr>
     = Some (Inr \<lparr>buf = [6, 0xEF, 0xBF, 0xBD, 0, 0], pos = 4\<rparr>)"
    by code_simp
  show "isValid \<lparr>buf = [6, 0xEF, 0xBF, 0xBD, 0, 0], pos = 4\<rparr>"
    by (simp add: isValid_def)
  show "readString \<lparr>buf = [6, 0xEF, 0xBF, 0xBD, 0, 0], pos = 0\<rparr>
     = (Some [0xFFFD], \<lparr>buf = [6, 0xEF, 0xBF, 0xBD, 0, 0], pos = 4\<rparr>)"
    by code_simp
qed

text \<open>
  For every string \<open>s\<close> of Unicode scalar values that does not begin with U+FEFF, and
  every tap with a non-negative position and a buffer of fewer than \<open>2^53\<close> bytes,
  \<^verbatim>\<open>writeString(s)\<close> returns without an error; if the write was valid, then the varint
  read at the position where the write started is the number of UTF-8 bytes of \<open>s\<close> and
  \<^verbatim>\<open>readString\<close> from that position yields \<open>s\<close> and ends where the write ended. The
  number of UTF-8 bytes is at least the UTF-16 length of \<open>s\<close> and exceeds it as soon as
  \<open>s\<close> has a character outside ASCII.
\<close>

lemma writeString_readString_scalar:
  fixes s :: jstring and t :: tap
  assumes "list_all scalar_value s" "s = [] \<or> hd s \<noteq> 0xFEFF"
    and "0 \<le> pos t" "int (length (buf t)) < 2 ^ 53"
  shows "\<exists>t'. writeString s t = Some (Inr t') \<and>
           (isValid t' \<longrightarrow>
              fst (readLong (t'\<lparr>pos := pos t\<rparr>)) = int (length (text_encode s)) \<and>
              readString (t'\<lparr>pos := pos t\<rparr>) = (Some s, t')) \<and>
           js_length s \<le> length (text_encode s) \<and>
           ((\<exists>c\<in>set s. 128 \<le> c) \<longrightarrow> js_length s < length (text_encode s))"
proof -
  define bytes where "bytes = text_encode s"
  define len where "len = int (length bytes)"
  define var where "var = varint (2 * len)"
  define b1 where "b1 = blit (buf t) (pos t) var"
  define p where "p = pos t + int (length var)"
  define b2 where "b2 = take (nat p) b1 @ bytes @ drop (nat p + length bytes) b1"
  define t' where "t' = (if int (length (buf t)) < p + len then \<lparr>buf = b1, pos = p + len\<rparr>
      else \<lparr>buf = b2, pos = p + len\<rparr>)"
  have w: "writeString s t = Some (Inr t')"
    using writeString_eq [OF assms(3), of s]
    unfolding t'_def b2_def p_def b1_def var_def len_def bytes_def by simp
  have rd: "fst (readLong (t'\<lparr>pos := pos t\<rparr>)) = len \<and> readString (t'\<lparr>pos := pos t\<rparr>) = (Some s, t')"
    if v: "isValid t'"
  proof -
    have lb1: "length b1 = length (buf t)" by (simp add: b1_def length_blit)
    have p0: "0 \<le> p" "0 \<le> len" using assms(3) by (simp_all add: p_def len_def)
    have fit: "p + len \<le> int (length (buf t))"
      using v p0 by (auto simp: isValid_def t'_def b2_def lb1 len_def split: if_splits)
    then have t'': "t' = \<lparr>buf = b2, pos = p + len\<rparr>" by (simp add: t'_def)
    have lb2: "length b2 = length (buf t)"
      using fit p0 by (simp add: b2_def lb1 len_def)
    have "holds b1 (pos t) var"
      unfolding b1_def using assms(3) fit p0 by (intro holds_blit) (simp_all add: p_def)
    then have h: "holds b2 (pos t) var"
      unfolding b2_def using fit by (intro holds_splice) (simp_all add: p_def lb1 len_def)
    have small: "2 * len < 2 ^ 54" using fit p0 assms(4) by simp
    have "readInt \<lparr>buf = b2, pos = pos t\<rparr> = (unzigzag (2 * len), \<lparr>buf = b2, pos = p\<rparr>)"
      using readInt_varint [of "\<lparr>buf = b2, pos = pos t\<rparr>" "2 * len"] h p0 small
      by (simp add: var_def p_def)
    then have ri: "readInt \<lparr>buf = b2, pos = pos t\<rparr> = (len, \<lparr>buf = b2, pos = p\<rparr>)"
      by (simp add: unzigzag_def)
    have sl: "js_slice b2 p (p + len) = bytes"
      unfolding b2_def len_def using p0 fit by (intro js_slice_splice) (simp_all add: lb1 len_def)
    have dec: "text_decode bytes = s"
      unfolding bytes_def using assms(1,2) by (rule text_decode_encode)
    show ?thesis
      using fit by (simp add: t'' readString_def ri sl dec lb2)
  qed
  show ?thesis
    using w rd js_length_le [of s] js_length_less [of s]
    by (auto simp: len_def bytes_def)
qed

section \<open>Lemmas about the readers and the schema parser\<close>





text \<open>
  Converting a schema value to a string can only raise a TypeError, so the error of an
  invalid order is either the one the constructor builds or a TypeError from building its
  message.
\<close>

lemma to_str_error:
  "to_str j = Inl e \<Longrightarrow> \<exists>m. e = TypeError m"
  "to_str_elems js = Inl e \<Longrightarrow> \<exists>m. e = TypeError m"
  by (induction j and js arbitrary: e and e rule: to_str_to_str_elems.induct)
    (auto split: sum.splits if_splits)

lemma raise_with_cases:
  "raise_with j err = err \<or> (\<exists>m. raise_with j err = TypeError m)"
  using to_str_error(1) [of j] by (auto simp: raise_with_def split: sum.splits)

lemma order_of_cases:
  "order_of ord =
     (if ord = JUndefined \<or> ord = JStr ''ascending'' then Inr 1
      else if ord = JStr ''descending'' then Inr (- 1)
      else if ord = JStr ''ignore'' then Inr 0
      else Inl (raise_with ord InvalidOrder))"
  by (simp add: order_of_def Let_def)

section \<open>C4: zigzag varint round trip\<close>

text \<open>
  C4, as stated, at the boundary value \<open>-(2^53 - 1)\<close> named by the claim: the writer
  computes \<^verbatim>\<open>-n * 2 - 1\<close> in floating point, the odd number \<open>2^54 - 3\<close> is not a
  double and is rounded to \<open>2^54 - 4\<close>, so the bytes written are those of \<open>2^53 - 2\<close>
  and the reader returns \<open>2^53 - 2\<close>, not \<open>n\<close>. The write is valid (the ten-byte
  buffer has room for the eight bytes).
\<close>

theorem writeInt_readInt_counterexample:
  "writeInt (- 9007199254740991) \<lparr>buf = [0, 0, 0, 0, 0, 0, 0, 0, 0, 0], pos = 0\<rparr>
     = Some \<lparr>buf = [252, 255, 255, 255, 255, 255, 255, 31, 0, 0], pos = 8\<rparr>
   \<and> isValid \<lparr>buf = [252, 255, 255, 255, 255, 255, 255, 31, 0, 0], pos = 8\<rparr>
   \<and> readInt \<lparr>buf = [252, 255, 255, 255, 255, 255, 255, 31, 0, 0], pos = 0\<rparr>
     = (9007199254740990, \<lparr>buf = [252, 255, 255, 255, 255, 255, 255, 31, 0, 0], pos = 8\<rparr>)"
proof (intro conjI)
  show "writeInt (- 9007199254740991) \<lparr>buf = [0, 0, 0, 0, 0, 0, 0, 0, 0, 0], pos = 0\<rparr>
     = Some \<lparr>buf = [252, 255, 255, 255, 255, 255, 255, 31, 0, 0], pos = 8\<rparr>"
    by code_simp
  show "isValid \<lparr>buf = [252, 255, 255, 255, 255, 255, 255, 31, 0, 0], pos = 8\<rparr>"
    by (simp add: isValid_def)
  show "readInt \<lparr>buf = [252, 255, 255, 255, 255, 255, 255, 31, 0, 0], pos = 0\<rparr>
     = (9007199254740990, \<lparr>buf = [252, 255, 255, 255, 255, 255, 255, 31, 0, 0], pos = 8\<rparr>)"
    by code_simp
qed

text \<open>
  C4 (amended): for every integer \<open>n\<close> with \<open>-2^52 \<le> n \<le> 2^53 - 1\<close>, which includes
  \<open>\<plusminus>2^30\<close> and the switch between integer and floating-point arithmetic, and every tap
  with a non-negative position, \<^verbatim>\<open>writeInt(n)\<close> returns, and if the write was valid
  (the position after it is within the buffer) then \<^verbatim>\<open>readInt\<close> from the position
  the write started at yields \<open>n\<close> and ends where the write ended.
\<close>

theorem writeInt_readInt_roundtrip:
  assumes "- (2 ^ 52) \<le> n" "n \<le> 2 ^ 53 - 1" "0 \<le> pos t"
  shows "\<exists>t'. writeInt n t = Some t' \<and> (isValid t' \<longrightarrow> readInt (t'\<lparr>pos := pos t\<rparr>) = (n, t'))"
proof -
  let ?bs = "varint (written n)"
  let ?t' = "\<lparr>buf = blit (buf t) (pos t) ?bs, pos = pos t + int (length ?bs)\<rparr>"
  have w: "writeInt n t = Some ?t'" by (rule writeInt_eq)
  have "readInt (?t'\<lparr>pos := pos t\<rparr>) = (n, ?t')" if "isValid ?t'"
  proof -
    have "pos t + int (length ?bs) \<le> int (length (buf t))"
      using that by (simp add: isValid_def length_blit)
    then have "holds (blit (buf t) (pos t) ?bs) (pos t) ?bs"
      using assms(3) by (intro holds_blit)
    then have h: "holds (buf (?t'\<lparr>pos := pos t\<rparr>)) (pos (?t'\<lparr>pos := pos t\<rparr>)) (varint (zigzag n))"
      by (simp add: written_in_range(1) [OF assms(1,2)])
    show ?thesis
      using readInt_varint [OF h written_in_range(2,3,4) [OF assms(1,2)]]
      by (simp add: unzigzag_zigzag written_in_range(1) [OF assms(1,2)])
  qed
  with w show ?thesis by blast
qed

text \<open>
  Witness for C4 at \<open>n = 2^30\<close>, the first value written with floating-point arithmetic,
  on a ten-byte buffer: the hypotheses hold, the write is valid, and the value read back
  is \<open>2^30\<close>.
\<close>

theorem writeInt_readInt_roundtrip_witness:
  "(- (2 ^ 52) \<le> (1073741824::int) \<and> (1073741824::int) \<le> 2 ^ 53 - 1
     \<and> 0 \<le> pos \<lparr>buf = [0, 0, 0, 0, 0, 0, 0, 0, 0, 0], pos = 0\<rparr>)
   \<and> writeInt 1073741824 \<lparr>buf = [0, 0, 0, 0, 0, 0, 0, 0, 0, 0], pos = 0\<rparr>
       = Some \<lparr>buf = [128, 128, 128, 128, 8, 0, 0, 0, 0, 0], pos = 5\<rparr>
   \<and> isValid \<lparr>buf = [128, 128, 128, 128, 8, 0, 0, 0, 0, 0], pos = 5\<rparr>
   \<and> readInt \<lparr>buf = [128, 128, 128, 128, 8, 0, 0, 0, 0, 0], pos = 0\<rparr>
       = (1073741824, \<lparr>buf = [128, 128, 128, 128, 8, 0, 0, 0, 0, 0], pos = 5\<rparr>)"
proof -
  let ?t = "\<lparr>buf = [0, 0, 0, 0, 0, 0, 0, 0, 0, 0] :: 8 word list, pos = 0\<rparr>"
  let ?t' = "\<lparr>buf = [128, 128, 128, 128, 8, 0, 0, 0, 0, 0] :: 8 word list, pos = 5\<rparr>"
  have w: "writeInt 1073741824 ?t = Some ?t'" by code_simp
  have v: "isValid ?t'" by (simp add: isValid_def)
  have "\<exists>t'. writeInt 1073741824 ?t = Some t' \<and> (isValid t' \<longrightarrow> readInt (t'\<lparr>pos := pos ?t\<rparr>) = (1073741824, t'))"
    by (rule writeInt_readInt_roundtrip) simp_all
  then have "readInt (?t'\<lparr>pos := pos ?t\<rparr>) = (1073741824, ?t')"
    using w v by auto
  then show ?thesis using w v by simp
qed

section \<open>C9: string round trip and length prefix\<close>

text \<open>
  C9 at the string of the two characters U+FEFF and \<^verbatim>\<open>h\<close>, on a six-byte buffer. The
  write is valid and the prefix is the number of UTF-8 bytes (the byte 8 is the varint of
  4, for 2 characters), but the string read back is \<^verbatim>\<open>"h"\<close>, not the string written:
  \<^verbatim>\<open>TextEncoder\<close> keeps a leading U+FEFF, and \<^verbatim>\<open>readString\<close> decodes with
  \<^verbatim>\<open>new TextDecoder()\<close>, whose default is to drop a leading byte order mark.
\<close>

theorem readString_drops_byte_order_mark:
  "writeString [0xFEFF, 104] \<lparr>buf = [0, 0, 0, 0, 0, 0], pos = 0\<rparr>
     = Some (Inr \<lparr>buf = [8, 0xEF, 0xBB, 0xBF, 104, 0], pos = 5\<rparr>)
   \<and> isValid \<lparr>buf = [8, 0xEF, 0xBB, 0xBF, 104, 0], pos = 5\<rparr>
   \<and> fst (readLong \<lparr>buf = [8, 0xEF, 0xBB, 0xBF, 104, 0], pos = 0\<rparr>) = 4
   \<and> length (text_encode [0xFEFF, 104]) = 4
   \<and> readString \<lparr>buf = [8, 0xEF, 0xBB, 0xBF, 104, 0], pos = 0\<rparr>
     = (Some [104], \<lparr>buf = [8, 0xEF, 0xBB, 0xBF, 104, 0], pos = 5\<rparr>)"
proof (intro conjI)
  show "writeString [0xFEFF, 104] \<lparr>buf = [0, 0, 0, 0, 0, 0], pos = 0\<rparr>
     = Some (Inr \<lparr>buf = [8, 0xEF, 0xBB, 0xBF, 104, 0], pos = 5\<rparr>)"
    by code_simp
  show "isValid \<lparr>buf = [8, 0xEF, 0xBB, 0xBF, 104, 0], pos = 5\<rparr>"
    by (simp add: isValid_def)
  show "fst (readLong \<lparr>buf = [8, 0xEF, 0xBB, 0xBF, 104, 0], pos = 0\<rparr>) = 4"
    by code_simp
  show "length (text_encode [0xFEFF, 104]) = 4"
    by (simp add: text_encode_def utf8_bytes_def is_surrogate_def)
  show "readString \<lparr>buf = [8, 0xEF, 0xBB, 0xBF, 104, 0], pos = 0\<rparr>
     = (Some [104], \<lparr>buf = [8, 0xEF, 0xBB, 0xBF, 104, 0], pos = 5\<rparr>)"
    by code_simp
qed

section \<open>C7: the outcomes of fromBuffer\<close>



section \<open>C1: registration of a named record\<close>

text \<open>
  C1 at the schema \<^verbatim>\<open>{"type":"record","name":"Foo","namespace":"ns","fields":[]}\<close> of the
  claim, parsed with a fresh registry: the record is compiled with the qualified name
  \<^verbatim>\<open>ns.Foo\<close>, but the registry is still empty afterwards, because the constructor of
  \<^verbatim>\<open>RecordType\<close> calls \<^verbatim>\<open>super()\<close> without the registry and before the name is set, so
  the registering code of \<^verbatim>\<open>Type\<close> returns at once. A later \<^verbatim>\<open>createType("ns.Foo")\<close> with
  the same options therefore raises \<^verbatim>\<open>undefined type name: ns.Foo\<close> instead of returning
  the type.
\<close>

theorem createType_record_not_registered:
  "createType
     (JObj [(''type'', JStr ''record''), (''name'', JStr ''Foo''), (''namespace'', JStr ''ns''),
            (''fields'', JArr [])])
     no_opts
   = Inr (RecordType ''ns.Foo'' [] (JStr ''record'') [],
          \<lparr>registry = [], namespace = JStr ''ns'', logicalTypes = JObj []\<rparr>)
   \<and> createType (JStr ''ns.Foo'')
       \<lparr>registry = [], namespace = JStr ''ns'', logicalTypes = JObj []\<rparr>
     = Inl (UndefinedTypeName ''ns.Foo'')"
proof (intro conjI)
  show "createType
     (JObj [(''type'', JStr ''record''), (''name'', JStr ''Foo''), (''namespace'', JStr ''ns''),
            (''fields'', JArr [])])
     no_opts
   = Inr (RecordType ''ns.Foo'' [] (JStr ''record'') [],
          \<lparr>registry = [], namespace = JStr ''ns'', logicalTypes = JObj []\<rparr>)"
    by code_simp
  show "createType (JStr ''ns.Foo'')
       \<lparr>registry = [], namespace = JStr ''ns'', logicalTypes = JObj []\<rparr>
     = Inl (UndefinedTypeName ''ns.Foo'')"
    by code_simp
qed

section \<open>C2: growth of the scratch buffer\<close>

text \<open>
  C2 at the string type and the string of 1023 letters \<^verbatim>\<open>a\<close>, a valid value whose
  encoding (a two-byte length prefix and 1023 bytes) does not fit the 1024 bytes of the
  scratch buffer: \<^verbatim>\<open>toBuffer\<close> does not grow the buffer and retry, it raises a TypeError,
  because the function \<^verbatim>\<open>Type._reset\<close> that it calls on overflow is not defined.
\<close>

theorem toBuffer_overflow_raises:
  "toBuffer (StringType :: atype) (VStr (replicate 1023 97)) TAP
     = Some (Inl (TypeError ''Type._reset is not a function''))"
proof -
  let ?s = "replicate 1023 97 :: jstring"
  let ?t = "TAP\<lparr>pos := 0\<rparr>"
  have len: "length (text_encode ?s) = 1023"
    by (simp add: length_text_encode is_surrogate_def utf8_bytes_def sum_list_replicate)
  have var: "length (varint 2046) = 2"
    by (simp add: varint.simps)
  have p: "0 \<le> pos ?t" by simp
  have lb: "int (length (buf ?t)) = 1024"
    by (simp add: TAP_def)
  obtain t1 where w: "writeString ?s ?t = Some (Inr t1)" and p1: "pos t1 = 1025"
    and b1: "length (buf t1) = 1024"
    using writeString_eq [OF p, of ?s] lb unfolding len
    by (simp add: var length_blit)
  have "\<not> isValid t1" by (simp add: isValid_def p1 b1)
  then show ?thesis
    by (simp add: toBuffer_def w)
qed

section \<open>C3: validation with an error hook\<close>

text \<open>
  C3 at the type array of strings and the invalid value \<^verbatim>\<open>[1]\<close>. Without a callback
  \<^verbatim>\<open>isValid\<close> returns \<^verbatim>\<open>false\<close>. With a callback, the callback is invoked for the invalid
  item with the path \<^verbatim>\<open>["0"]\<close>, and then \<^verbatim>\<open>isValid\<close> raises a TypeError instead of
  returning \<^verbatim>\<open>false\<close>: the checker records the failure with \<^verbatim>\<open>b = false\<close>, and \<^verbatim>\<open>b\<close> is
  declared \<^verbatim>\<open>const\<close>. The path is left non-empty.
\<close>

theorem isValid_hook_raises:
  "Type_isValid (ArrayType StringType :: atype) (VArr [VNum 1]) False \<lparr>PATH = [], calls = []\<rparr>
     = (Inr False, \<lparr>PATH = [], calls = []\<rparr>)
   \<and> Type_isValid (ArrayType StringType :: atype) (VArr [VNum 1]) True \<lparr>PATH = [], calls = []\<rparr>
     = (Inl (TypeError ''Assignment to constant variable.''),
        \<lparr>PATH = [''0''], calls = [([''0''], VNum 1, StringType)]\<rparr>)"
proof (intro conjI)
  show "Type_isValid (ArrayType StringType :: atype) (VArr [VNum 1]) False \<lparr>PATH = [], calls = []\<rparr>
     = (Inr False, \<lparr>PATH = [], calls = []\<rparr>)"
    by code_simp
  show "Type_isValid (ArrayType StringType :: atype) (VArr [VNum 1]) True \<lparr>PATH = [], calls = []\<rparr>
     = (Inl (TypeError ''Assignment to constant variable.''),
        \<lparr>PATH = [''0''], calls = [([''0''], VNum 1, StringType)]\<rparr>)"
    by code_simp
qed

section \<open>C5: array blocks with a negative count\<close>

text \<open>
  C5 at the type array of strings and the two encodings of the array \<^verbatim>\<open>[""]\<close>. The
  encoding with a positive count, the bytes 2 (count 1), 0 (the empty string), 0 (end), is
  decoded to \<^verbatim>\<open>[""]\<close>. The encoding with a negative count, the bytes 1 (count -1),
  2 (byte size 1), 0 (the empty string), 0 (end), is not: the reader calls
  \<^verbatim>\<open>tap.skipLong()\<close> to skip the byte size, and \<^verbatim>\<open>Tap\<close> defines no \<^verbatim>\<open>skipLong\<close>, so a
  TypeError is raised.
\<close>

theorem read_negative_block_raises:
  "read 5 (ArrayType StringType :: atype) \<lparr>buf = [2, 0, 0], pos = 0\<rparr>
     = Some (Inr (VArr [VStr []], \<lparr>buf = [2, 0, 0], pos = 3\<rparr>))
   \<and> read 5 (ArrayType StringType :: atype) \<lparr>buf = [1, 2, 0, 0], pos = 0\<rparr>
     = Some (Inl (TypeError ''tap.skipLong is not a function''))"
proof (intro conjI)
  show "read 5 (ArrayType StringType :: atype) \<lparr>buf = [2, 0, 0], pos = 0\<rparr>
     = Some (Inr (VArr [VStr []], \<lparr>buf = [2, 0, 0], pos = 3\<rparr>))"
    by code_simp
  show "read 5 (ArrayType StringType :: atype) \<lparr>buf = [1, 2, 0, 0], pos = 0\<rparr>
     = Some (Inl (TypeError ''tap.skipLong is not a function''))"
    by code_simp
qed

section \<open>C6: the namespace of a later sibling\<close>

text \<open>
  C6 at a record \<^verbatim>\<open>A\<close> with the namespace \<^verbatim>\<open>a\<close> and two fields: \<^verbatim>\<open>x\<close>, a record \<^verbatim>\<open>B\<close>
  that declares the namespace \<^verbatim>\<open>b\<close>, and \<^verbatim>\<open>y\<close>, a record \<^verbatim>\<open>C\<close> that declares none. The
  sibling \<^verbatim>\<open>C\<close> is compiled with the name \<^verbatim>\<open>b.C\<close>, not \<^verbatim>\<open>a.C\<close>: \<^verbatim>\<open>getOpts\<close> assigns the
  namespace of \<^verbatim>\<open>B\<close> to the options object that all the calls share and nothing restores
  it, so the namespace of the nested schema is still in force when the next field is
  parsed (and when the parse returns).
\<close>

theorem namespace_leaks_to_sibling:
  "createType
     (JObj [(''type'', JStr ''record''), (''name'', JStr ''A''), (''namespace'', JStr ''a''),
            (''fields'', JArr [
               JObj [(''name'', JStr ''x''),
                     (''type'', JObj [(''type'', JStr ''record''), (''name'', JStr ''B''),
                                      (''namespace'', JStr ''b''), (''fields'', JArr [])])],
               JObj [(''name'', JStr ''y''),
                     (''type'', JObj [(''type'', JStr ''record''), (''name'', JStr ''C''),
                                      (''fields'', JArr [])])]])])
     no_opts
   = Inr (RecordType ''a.A'' [] (JStr ''record'')
            [Field' ''x'' (RecordType ''b.B'' [] (JStr ''record'') []) (JArr []) 1,
             Field' ''y'' (RecordType ''b.C'' [] (JStr ''record'') []) (JArr []) 1],
          \<lparr>registry = [], namespace = JStr ''b'', logicalTypes = JObj []\<rparr>)"
  by code_simp

section \<open>C8: the default of a field\<close>

text \<open>
  C8 at the record \<^verbatim>\<open>R\<close> with one field \<^verbatim>\<open>a\<close>, an array of strings with the default
  \<^verbatim>\<open>[]\<close>. The compiled field keeps nothing of the default: the constructor of \<^verbatim>\<open>Field\<close>
  never reads \<^verbatim>\<open>attrs.default\<close> and \<^verbatim>\<open>getDefault\<close> has an empty body, so it returns
  \<^verbatim>\<open>undefined\<close> for every field. An instance built without an argument for \<^verbatim>\<open>a\<close> therefore
  has \<^verbatim>\<open>a = undefined\<close>: it receives no container at all, neither a fresh nor a shared
  one.
\<close>

theorem field_default_ignored:
  "createType
     (JObj [(''type'', JStr ''record''), (''name'', JStr ''R''),
            (''fields'', JArr [
               JObj [(''name'', JStr ''a''),
                     (''type'', JObj [(''type'', JStr ''array''), (''items'', JStr ''string'')]),
                     (''default'', JArr [])]])])
     no_opts
   = Inr (RecordType ''R'' [] (JStr ''record'') [Field' ''a'' (ArrayType StringType) (JArr []) 1],
          \<lparr>registry = [(''string'', StringType)], namespace = JUndefined, logicalTypes = JObj []\<rparr>)
   \<and> getDefault (Field' ''a'' (ArrayType StringType) (JArr []) 1 :: json field) = VUndefined
   \<and> createConstructor [Field' ''a'' (ArrayType StringType) (JArr []) 1 :: json field] []
     = VObj [(''a'', VUndefined)]"
proof (intro conjI)
  show "createType
     (JObj [(''type'', JStr ''record''), (''name'', JStr ''R''),
            (''fields'', JArr [
               JObj [(''name'', JStr ''a''),
                     (''type'', JObj [(''type'', JStr ''array''), (''items'', JStr ''string'')]),
                     (''default'', JArr [])]])])
     no_opts
   = Inr (RecordType ''R'' [] (JStr ''record'') [Field' ''a'' (ArrayType StringType) (JArr []) 1],
          \<lparr>registry = [(''string'', StringType)], namespace = JUndefined, logicalTypes = JObj []\<rparr>)"
    by code_simp
  show "getDefault (Field' ''a'' (ArrayType StringType) (JArr []) 1 :: json field) = VUndefined"
    by (simp add: getDefault_def)
  show "createConstructor [Field' ''a'' (ArrayType StringType) (JArr []) 1 :: json field] []
     = VObj [(''a'', VUndefined)]"
    by code_simp
qed

section \<open>C10: the order of a field\<close>

text \<open>
  C10: take a field schema with a valid name whose type compiles. When the schema has no
  \<^verbatim>\<open>order\<close> attribute, the construction of the field succeeds and the ordering weight of
  the field is \<open>+1\<close> (ascending). The invalid-order error is raised only for an
  \<^verbatim>\<open>order\<close> attribute that is present with a value outside \<^verbatim>\<open>"ascending"\<close>,
  \<^verbatim>\<open>"descending"\<close>, \<^verbatim>\<open>"ignore"\<close> (and other than \<^verbatim>\<open>undefined\<close>, which counts as absent);
  and it is raised for every such value that can be converted to a string for the message
  of the error.
\<close>

theorem Field_order:
  assumes "map_of kvs ''name'' = Some (JStr name)" "NAME_PATTERN name"
    and "createType (case map_of kvs ''type'' of None \<Rightarrow> JUndefined | Some x \<Rightarrow> x) os = Inr (t, os1)"
  shows "(map_of kvs ''order'' = None \<longrightarrow>
            new_Field (JObj kvs) os =
              Inr (Field' name t
                     (case map_of kvs ''aliases'' of
                        None \<Rightarrow> JArr []
                      | Some al \<Rightarrow> if truthy al then al else JArr []) 1,
                   os1))
       \<and> (new_Field (JObj kvs) os = Inl InvalidOrder \<longrightarrow>
            (\<exists>ord. map_of kvs ''order'' = Some ord \<and> ord \<noteq> JUndefined \<and>
                   ord \<noteq> JStr ''ascending'' \<and> ord \<noteq> JStr ''descending'' \<and> ord \<noteq> JStr ''ignore''))
       \<and> (\<forall>ord s. map_of kvs ''order'' = Some ord \<and> ord \<noteq> JUndefined \<and>
                    ord \<noteq> JStr ''ascending'' \<and> ord \<noteq> JStr ''descending'' \<and> ord \<noteq> JStr ''ignore'' \<and>
                    to_str ord = Inr s \<longrightarrow>
            new_Field (JObj kvs) os = Inl InvalidOrder)"
proof -
  define al where "al = (case map_of kvs ''aliases'' of None \<Rightarrow> JUndefined | Some x \<Rightarrow> x)"
  define ord where "ord = (case map_of kvs ''order'' of None \<Rightarrow> JUndefined | Some x \<Rightarrow> x)"
  have nf: "new_Field (JObj kvs) os =
      (case order_of ord of
         Inl e \<Rightarrow> Inl e
       | Inr w \<Rightarrow> Inr (Field' name t (if truthy al then al else JArr []) w, os1))"
    using assms unfolding al_def ord_def by (simp add: new_Field.simps get_attr_def)
  have al': "(if truthy al then al else JArr []) =
      (case map_of kvs ''aliases'' of None \<Rightarrow> JArr [] | Some al \<Rightarrow> if truthy al then al else JArr [])"
    by (simp add: al_def truthy_def split: option.splits)
  have 1: "new_Field (JObj kvs) os =
      Inr (Field' name t
             (case map_of kvs ''aliases'' of
                None \<Rightarrow> JArr []
              | Some al \<Rightarrow> if truthy al then al else JArr []) 1, os1)"
    if "map_of kvs ''order'' = None"
    using that unfolding nf al' by (simp add: ord_def order_of_cases)
  have 2: "\<exists>x. map_of kvs ''order'' = Some x \<and> x \<noteq> JUndefined \<and>
        x \<noteq> JStr ''ascending'' \<and> x \<noteq> JStr ''descending'' \<and> x \<noteq> JStr ''ignore''"
    if "new_Field (JObj kvs) os = Inl InvalidOrder"
  proof (cases "map_of kvs ''order''")
    case None
    then show ?thesis using that 1 by simp
  next
    case (Some x)
    then have "ord = x" by (simp add: ord_def)
    then show ?thesis
      using that Some unfolding nf order_of_cases by (auto split: if_splits)
  qed
  have 3: "new_Field (JObj kvs) os = Inl InvalidOrder"
    if "map_of kvs ''order'' = Some x" "x \<noteq> JUndefined" "x \<noteq> JStr ''ascending''"
      "x \<noteq> JStr ''descending''" "x \<noteq> JStr ''ignore''" "to_str x = Inr s" for x s
  proof -
    have "ord = x" using that(1) by (simp add: ord_def)
    then show ?thesis
      using that unfolding nf order_of_cases by (simp add: raise_with_def)
  qed
  show ?thesis using 1 2 3 by blast
qed

text \<open>
  The theorem at the field \<^verbatim>\<open>{name: "a", type: "string"}\<close>, which has no order, and at the
  same field with the order \<^verbatim>\<open>"up"\<close>.
\<close>

theorem Field_order_witness:
  "(map_of [(''name'', JStr ''a''), (''type'', JStr ''string'')] ''name'' = Some (JStr ''a'')
     \<and> NAME_PATTERN ''a''
     \<and> createType (JStr ''string'') no_opts
          = Inr (StringType,
                 \<lparr>registry = [(''string'', StringType)], namespace = JUndefined, logicalTypes = JObj []\<rparr>)
     \<and> map_of [(''name'', JStr ''a''), (''type'', JStr ''string'')] ''order'' = None)
   \<and> new_Field (JObj [(''name'', JStr ''a''), (''type'', JStr ''string'')]) no_opts
       = Inr (Field' ''a'' StringType (JArr []) 1,
              \<lparr>registry = [(''string'', StringType)], namespace = JUndefined, logicalTypes = JObj []\<rparr>)
   \<and> (map_of [(''name'', JStr ''a''), (''type'', JStr ''string''), (''order'', JStr ''up'')] ''order''
        = Some (JStr ''up'')
     \<and> to_str (JStr ''up'') = Inr ''up'')
   \<and> new_Field (JObj [(''name'', JStr ''a''), (''type'', JStr ''string''), (''order'', JStr ''up'')])
         no_opts = Inl InvalidOrder"
proof -
  let ?k1 = "[(''name'', JStr ''a''), (''type'', JStr ''string'')]"
  let ?k2 = "[(''name'', JStr ''a''), (''type'', JStr ''string''), (''order'', JStr ''up'')]"
  let ?os = "\<lparr>registry = [(''string'', StringType)], namespace = JUndefined, logicalTypes = JObj []\<rparr>"
  have n: "NAME_PATTERN ''a''" by code_simp
  have c: "createType (JStr ''string'') no_opts = Inr (StringType, ?os)" by code_simp
  have c1: "createType (case map_of ?k1 ''type'' of None \<Rightarrow> JUndefined | Some x \<Rightarrow> x) no_opts
      = Inr (StringType, ?os)"
    using c by simp
  have c2: "createType (case map_of ?k2 ''type'' of None \<Rightarrow> JUndefined | Some x \<Rightarrow> x) no_opts
      = Inr (StringType, ?os)"
    using c by simp
  have m1: "map_of ?k1 ''name'' = Some (JStr ''a'')" by simp
  have m2: "map_of ?k2 ''name'' = Some (JStr ''a'')" by simp
  have o1: "map_of ?k1 ''order'' = None" by simp
  have o2: "map_of ?k2 ''order'' = Some (JStr ''up'')" by simp
  have s: "to_str (JStr ''up'') = Inr ''up''" by simp
  have f1: "new_Field (JObj ?k1) no_opts = Inr (Field' ''a'' StringType (JArr []) 1, ?os)"
    using Field_order [OF m1 n c1] o1 by simp
  have f2: "new_Field (JObj ?k2) no_opts = Inl InvalidOrder"
    using Field_order [OF m2 n c2] o2 s by simp
  show ?thesis
    using n c m1 o1 o2 s f1 f2 by simp
qed


end
